theory Spec2Isabelle
  imports Complex_Main "HOL-Library.Sublist" "HOL-Library.Multiset"
begin

section \<open>Data model\<close>

text \<open>
  Elements are JavaScript objects that the engine shares by reference: the population,
  the ranking copy of \<open>crowdingDistance\<close> and the Pareto lists all point to the same
  objects. An object is therefore an address (\<open>ref\<close>) into an explicit store, and an array
  of elements is a list of addresses.

  JavaScript numbers are modelled as exact reals extended with the three special values
  of IEEE arithmetic; rounding and overflow of finite values are not modelled. Decision
  values and evaluation components are finite numbers.
\<close>

type_synonym ref = nat

datatype number = Fin real | PInf | NInf | NaN

datatype error = TypeError | RangeError

datatype event =
  Initiated | Updated | Expanded | Evaluated | Sieved | Advanced | Analyzed | Finished

datatype level = Warn | Debug

record pareto_lists =
  dominated :: "ref list"
  dominators :: "ref list"

text \<open>
  An element: \<open>elem_values\<close> is the property \<open>__values__\<close>, \<open>model\<close> lists \<open>model[i].n\<close>,
  \<open>velocity\<close> and \<open>localBest\<close> are the particle swarm's \<open>__velocity__\<close> and
  \<open>__localBest__\<close>. A property that has not been set yet is \<open>None\<close>.
\<close>

record element =
  elem_values :: "real list"
  model :: "nat list"
  evaluation :: "real list option"
  pareto :: "pareto_lists option"
  crowdingDistance :: "number option"
  velocity :: "real list option"
  localBest :: "ref option"

type_synonym store = "ref \<Rightarrow> element"

text \<open>
  The problem is an external collaborator; its capabilities are parameters of the model.
  \<open>objectives\<close> is \<open>problem.objectives.length\<close>; \<open>Element k\<close> gives the random decision
  values of the \<open>k\<close>-th element the factory \<open>new problem.Element()\<close> builds and
  \<open>Element_model\<close> its model; \<open>evaluation_fn\<close> is the evaluation the problem assigns to
  decision values; \<open>compare\<close> is the number \<open>problem.compare(a, b)\<close> and \<open>domination\<close> the
  property \<open>.domination\<close> of that result.
\<close>

record problem =
  objectives :: nat
  Element :: "nat \<Rightarrow> real list"
  Element_model :: "nat list"
  evaluation_fn :: "real list \<Rightarrow> real list"
  compare :: "element \<Rightarrow> element \<Rightarrow> real"
  domination :: "element \<Rightarrow> element \<Rightarrow> real"
  isBetterThan :: "element \<Rightarrow> element \<Rightarrow> bool"
  sufficientElements :: "element list \<Rightarrow> bool"

text \<open>
  The metaheuristic object. \<open>store\<close> and \<open>allocated\<close> (the next free address) stand for
  the JavaScript heap; \<open>size_mh\<close> is the property \<open>size\<close>; \<open>events\<close> and \<open>logged\<close> record
  what the \<open>events\<close> emitter and the logger received; \<open>random\<close> is
  \<open>this.random.random(max)\<close> at the \<open>drawn\<close>-th draw. The last four fields are the
  particle swarm's.
\<close>

record engine =
  heap :: store
  allocated :: ref
  size_mh :: nat
  state :: "ref list"
  steps :: real
  step :: int
  expansionRate :: "real option"
  events :: "event list"
  logged :: "(level \<times> string) list"
  random :: "nat \<Rightarrow> real \<Rightarrow> real"
  drawn :: nat
  inertia :: real
  localAcceleration :: real
  globalAcceleration :: real
  globalBest :: "ref option"

section \<open>Metaheuristic: basic workflow\<close>

definition log_msg :: "level \<Rightarrow> string \<Rightarrow> engine \<Rightarrow> engine" where
  "log_msg lv msg e = e\<lparr>logged := logged e @ [(lv, msg)]\<rparr>"

definition emit :: "event \<Rightarrow> engine \<Rightarrow> engine" where
  "emit ev e = e\<lparr>events := events e @ [ev]\<rparr>"

definition onInitiate :: "engine \<Rightarrow> engine" where
  "onInitiate e = log_msg Debug ''State has been initiated. Nos coepimus.'' (emit Initiated e)"

definition onUpdate :: "engine \<Rightarrow> engine" where
  "onUpdate e = log_msg Debug ''State has been updated. Mutatis mutandis.'' (emit Updated e)"

definition onExpand :: "engine \<Rightarrow> engine" where
  "onExpand e = log_msg Debug ''State has been expanded. Nos exploramus.'' (emit Expanded e)"

definition onEvaluate :: "engine \<Rightarrow> engine" where
  "onEvaluate e = log_msg Debug ''Evaluated and sorted elements. Appretiatus sunt.'' (emit Evaluated e)"

definition onSieve :: "engine \<Rightarrow> engine" where
  "onSieve e = log_msg Debug ''State has been sieved. Haec est viam.'' (emit Sieved e)"

definition onAdvance :: "engine \<Rightarrow> engine" where
  "onAdvance e = log_msg Debug ''Step has been completed. Nos proficimus.'' (emit Advanced e)"

definition onAnalyze :: "engine \<Rightarrow> engine" where
  "onAnalyze e = log_msg Debug ''Statistics have been gathered. Haec sunt numeri.'' (emit Analyzed e)"

definition onFinish :: "engine \<Rightarrow> engine" where
  "onFinish e = log_msg Debug ''Finished. Nos invenerunt!'' (emit Finished e)"

text \<open>\<open>new this.problem.Element(values)\<close>: a fresh object with no evaluation yet.\<close>

definition blank :: "problem \<Rightarrow> real list \<Rightarrow> element" where
  "blank P vs = \<lparr>elem_values = vs, model = Element_model P, evaluation = None,
     pareto = None, crowdingDistance = None, velocity = None, localBest = None\<rparr>"

definition alloc :: "element \<Rightarrow> engine \<Rightarrow> ref \<times> engine" where
  "alloc x e = (allocated e,
     e\<lparr>heap := (heap e)(allocated e := x), allocated := Suc (allocated e)\<rparr>)"

text \<open>\<open>new this.problem.Element()\<close>: an element with random values.\<close>

definition new_Element :: "problem \<Rightarrow> engine \<Rightarrow> ref \<times> engine" where
  "new_Element P e = alloc (blank P (Element P (drawn e))) (e\<lparr>drawn := Suc (drawn e)\<rparr>)"

text \<open>The loop \<open>for (i = 0; i < size; i++) elems[i] = new this.problem.Element()\<close>.\<close>

fun new_Elements :: "problem \<Rightarrow> nat \<Rightarrow> engine \<Rightarrow> ref list \<times> engine" where
  "new_Elements P 0 e = ([], e)"
| "new_Elements P (Suc n) e =
     (let (r, e1) = new_Element P e; (rs, e2) = new_Elements P n e1 in (r # rs, e2))"

text \<open>
  \<open>initiate(size)\<close>; \<open>None\<close> is a missing argument. A size is a natural number:
  \<open>new Array(size)\<close> accepts nothing else.
\<close>

definition initiate :: "problem \<Rightarrow> engine \<Rightarrow> nat option \<Rightarrow> engine" where
  "initiate P e sz =
     (let n = (case sz of None \<Rightarrow> size_mh e | Some k \<Rightarrow> k);
          (rs, e1) = new_Elements P n e
      in onInitiate (e1\<lparr>state := rs\<rparr>))"

text \<open>
  \<open>expansion(size)\<close>: \<open>new Array(size)\<close> raises a \<open>RangeError\<close> when the size is negative
  or not an integer.
\<close>

definition expansion :: "problem \<Rightarrow> engine \<Rightarrow> real option \<Rightarrow> error + ref list \<times> engine" where
  "expansion P e sz =
     (let rate = (case expansionRate e of None \<Rightarrow> 1 | Some r \<Rightarrow> r);
          n = (case sz of None \<Rightarrow> of_int \<lfloor>rate * real (size_mh e)\<rfloor> | Some s \<Rightarrow> s)
      in if n < 0 \<or> n \<noteq> of_int \<lfloor>n\<rfloor> then Inl RangeError
         else Inr (new_Elements P (nat \<lfloor>n\<rfloor>) e))"

text \<open>\<open>expand(expansion)\<close>; an array, even an empty one, is truthy, so it is used as given.\<close>

definition expand :: "problem \<Rightarrow> engine \<Rightarrow> ref list option \<Rightarrow> error + engine" where
  "expand P e ex =
     (case (case ex of Some xs \<Rightarrow> Inr (xs, e) | None \<Rightarrow> expansion P e None) of
        Inl err \<Rightarrow> Inl err
      | Inr (xs, e1) \<Rightarrow>
          Inr (onExpand (if length xs < 1 then log_msg Warn ''Expansion is empty'' e1
                         else e1\<lparr>state := state e1 @ xs\<rparr>)))"

text \<open>
  \<open>sieve(size)\<close>: \<open>size = isNaN(size) ? this.size : Math.floor(size)\<close>, then
  \<open>this.state.slice(0, this.size)\<close> when the state is longer than \<open>size\<close>.
\<close>

definition sieve :: "engine \<Rightarrow> real option \<Rightarrow> engine" where
  "sieve e sz =
     (let n = (case sz of None \<Rightarrow> int (size_mh e) | Some s \<Rightarrow> \<lfloor>s\<rfloor>)
      in onSieve (if int (length (state e)) > n
                  then e\<lparr>state := take (size_mh e) (state e)\<rparr> else e))"

section \<open>JavaScript numbers and \<open>Array.prototype.sort\<close>\<close>

fun nneg :: "number \<Rightarrow> number" where
  "nneg (Fin a) = Fin (- a)"
| "nneg PInf = NInf"
| "nneg NInf = PInf"
| "nneg NaN = NaN"

fun nadd :: "number \<Rightarrow> number \<Rightarrow> number" where
  "nadd (Fin a) (Fin b) = Fin (a + b)"
| "nadd NaN _ = NaN"
| "nadd _ NaN = NaN"
| "nadd PInf NInf = NaN"
| "nadd NInf PInf = NaN"
| "nadd PInf _ = PInf"
| "nadd _ PInf = PInf"
| "nadd NInf _ = NInf"
| "nadd _ NInf = NInf"

definition nsub :: "number \<Rightarrow> number \<Rightarrow> number" where
  "nsub a b = nadd a (nneg b)"

text \<open>\<open>a || b\<close> on numbers: \<open>0\<close> and \<open>NaN\<close> are falsy.\<close>

definition js_or :: "number \<Rightarrow> number \<Rightarrow> number" where
  "js_or a b = (if a = Fin 0 \<or> a = NaN then b else a)"

text \<open>
  \<open>sort_le comparefn x y\<close>: the comparison of the language's \<open>SortCompare\<close> says that \<open>x\<close>
  need not come after \<open>y\<close>, that is \<open>comparefn(x, y) \<le> 0\<close>, a result \<open>NaN\<close> counting as
  \<open>+0\<close>.
\<close>

definition sort_le :: "('a \<Rightarrow> 'a \<Rightarrow> number) \<Rightarrow> 'a \<Rightarrow> 'a \<Rightarrow> bool" where
  "sort_le comparefn x y =
     (case comparefn x y of Fin v \<Rightarrow> v \<le> 0 | PInf \<Rightarrow> False | NInf \<Rightarrow> True | NaN \<Rightarrow> True)"

text \<open>
  \<open>array.sort(comparefn)\<close> as a stable insertion sort: each element goes in front of the
  first element of the sorted rest that it need not come after. With a consistent
  comparison function every stable sort returns this list.
\<close>

fun js_insert :: "('a \<Rightarrow> 'a \<Rightarrow> number) \<Rightarrow> 'a \<Rightarrow> 'a list \<Rightarrow> 'a list" where
  "js_insert comparefn x [] = [x]"
| "js_insert comparefn x (y # ys) =
     (if sort_le comparefn x y then x # y # ys else y # js_insert comparefn x ys)"

definition js_sort :: "('a \<Rightarrow> 'a \<Rightarrow> number) \<Rightarrow> 'a list \<Rightarrow> 'a list" where
  "js_sort comparefn xs = foldr (js_insert comparefn) xs []"

section \<open>Metaheuristic: multi-objective analysis\<close>

text \<open>
  \<open>r.pareto.dominated\<close> and \<open>r.pareto.dominators\<close>. They are read only after
  \<open>paretoAnalysis\<close> has given every element of the list its two lists, so the case \<open>None\<close>
  does not arise there.
\<close>

definition dominated_of :: "store \<Rightarrow> ref \<Rightarrow> ref list" where
  "dominated_of h r = (case pareto (h r) of None \<Rightarrow> [] | Some p \<Rightarrow> dominated p)"

definition dominators_of :: "store \<Rightarrow> ref \<Rightarrow> ref list" where
  "dominators_of h r = (case pareto (h r) of None \<Rightarrow> [] | Some p \<Rightarrow> dominators p)"

text \<open>\<open>r.pareto.dominated.push(x)\<close> and \<open>r.pareto.dominators.push(x)\<close>.\<close>

definition push_dominated :: "ref \<Rightarrow> ref \<Rightarrow> store \<Rightarrow> store" where
  "push_dominated r x h =
     h(r := (h r)\<lparr>pareto := map_option (\<lambda>p. p\<lparr>dominated := dominated p @ [x]\<rparr>) (pareto (h r))\<rparr>)"

definition push_dominators :: "ref \<Rightarrow> ref \<Rightarrow> store \<Rightarrow> store" where
  "push_dominators r x h =
     h(r := (h r)\<lparr>pareto := map_option (\<lambda>p. p\<lparr>dominators := dominators p @ [x]\<rparr>) (pareto (h r))\<rparr>)"

text \<open>The body of the inner loop of \<open>paretoAnalysis\<close>, at the indices \<open>i1 < i2\<close>.\<close>

definition pareto_pair :: "problem \<Rightarrow> ref list \<Rightarrow> nat \<Rightarrow> nat \<Rightarrow> store \<Rightarrow> store" where
  "pareto_pair P elements i1 i2 h =
     (let elem1 = elements ! i1; elem2 = elements ! i2;
          d = domination P (h elem1) (h elem2)
      in if d > 0 then push_dominators elem2 elem1 (push_dominated elem1 elem2 h)
         else if d < 0 then push_dominators elem1 elem2 (push_dominated elem2 elem1 h)
         else h)"

definition pareto_reset :: "ref list \<Rightarrow> store \<Rightarrow> store" where
  "pareto_reset elements h =
     fold (\<lambda>i1 h. h(elements ! i1 :=
             (h (elements ! i1))\<lparr>pareto := Some \<lparr>dominated = [], dominators = []\<rparr>\<rparr>))
       [0..<length elements] h"

definition paretoAnalysis :: "problem \<Rightarrow> store \<Rightarrow> ref list \<Rightarrow> store" where
  "paretoAnalysis P h elements =
     (let len = length elements
      in fold (\<lambda>i1 h. fold (pareto_pair P elements i1) [i1 + 1..<len] h) [0..<len]
           (pareto_reset elements h))"

text \<open>
  \<open>elem.evaluation[i]\<close> as an operand of a subtraction: an index past the end reads
  \<open>undefined\<close>, which the subtraction turns into \<open>NaN\<close>. (Reading from an element with no
  evaluation raises; \<open>crowding_objective\<close> checks that before it sorts.)
\<close>

definition evaluation_at :: "store \<Rightarrow> nat \<Rightarrow> ref \<Rightarrow> number" where
  "evaluation_at h i r =
     (case evaluation (h r) of None \<Rightarrow> NaN
      | Some v \<Rightarrow> if i < length v then Fin (v ! i) else NaN)"

text \<open>\<open>elem.crowdingDistance\<close> as an operand: \<open>undefined\<close> becomes \<open>NaN\<close>.\<close>

definition distance_of :: "store \<Rightarrow> ref \<Rightarrow> number" where
  "distance_of h r = (case crowdingDistance (h r) of None \<Rightarrow> NaN | Some d \<Rightarrow> d)"

definition set_distance :: "ref \<Rightarrow> number \<Rightarrow> store \<Rightarrow> store" where
  "set_distance r d h = h(r := (h r)\<lparr>crowdingDistance := Some d\<rparr>)"

text \<open>
  The statement \<open>es[j].crowdingDistance += es[j + 1].evaluation[i] - es[j - 1].evaluation[i]\<close>.
\<close>

definition crowding_step :: "nat \<Rightarrow> ref list \<Rightarrow> nat \<Rightarrow> store \<Rightarrow> store" where
  "crowding_step i es j h =
     set_distance (es ! j)
       (nadd (distance_of h (es ! j))
          (nsub (evaluation_at h i (es ! (j + 1))) (evaluation_at h i (es ! (j - 1))))) h"

text \<open>The comparison function of the sort by the objective \<open>i\<close>.\<close>

definition objective_compare :: "store \<Rightarrow> nat \<Rightarrow> ref \<Rightarrow> ref \<Rightarrow> number" where
  "objective_compare h i elem1 elem2 = nsub (evaluation_at h i elem1) (evaluation_at h i elem2)"

text \<open>
  One round of the loop over the objectives, on the store and the ranking copy \<open>es\<close>.
  The comparison function raises a \<open>TypeError\<close> on an element without evaluation, and
  every sort of two or more elements compares each of them; \<open>es[0].crowdingDistance =
  Infinity\<close> raises a \<open>TypeError\<close> when \<open>es\<close> is empty.
\<close>

definition crowding_objective :: "nat \<Rightarrow> store \<times> ref list \<Rightarrow> error + store \<times> ref list" where
  "crowding_objective i hes =
     (let (h, es) = hes in
      if 2 \<le> length es \<and> list_ex (\<lambda>r. evaluation (h r) = None) es then Inl TypeError
      else
        let es1 = js_sort (objective_compare h i) es
        in if es1 = [] then Inl TypeError
           else
             let h1 = set_distance (es1 ! 0) PInf h;
                 h2 = set_distance (es1 ! (length es1 - 1)) PInf h1
             in Inr (fold (crowding_step i es1) [1..<length es1 - 1] h2, es1))"

fun crowding_objectives :: "nat list \<Rightarrow> store \<times> ref list \<Rightarrow> error + store \<times> ref list" where
  "crowding_objectives [] hes = Inr hes"
| "crowding_objectives (i # is) hes =
     (case crowding_objective i hes of
        Inl err \<Rightarrow> Inl err
      | Inr hes1 \<Rightarrow> crowding_objectives is hes1)"

text \<open>\<open>crowdingDistance(elements)\<close>; it returns \<open>elements\<close> itself, so the model returns the store.\<close>

definition crowdingDistance_mh :: "problem \<Rightarrow> store \<Rightarrow> ref list \<Rightarrow> error + store" where
  "crowdingDistance_mh P h elements =
     (let es = elements;
          count = objectives P;
          h0 = fold (\<lambda>i h. set_distance (es ! i) (Fin 0) h) [0..<length es] h
      in case crowding_objectives [0..<count] (h0, es) of
           Inl err \<Rightarrow> Inl err
         | Inr (h1, _) \<Rightarrow> Inr h1)"

text \<open>The comparison function of \<open>nonDominatedSort\<close>.\<close>

definition nonDominated_compare :: "store \<Rightarrow> ref \<Rightarrow> ref \<Rightarrow> number" where
  "nonDominated_compare h elem1 elem2 =
     js_or (Fin (real (length (dominators_of h elem1)) - real (length (dominators_of h elem2))))
       (nsub (distance_of h elem2) (distance_of h elem1))"

definition nonDominatedSort :: "problem \<Rightarrow> store \<Rightarrow> ref list \<Rightarrow> error + store \<times> ref list" where
  "nonDominatedSort P h elements =
     (case crowdingDistance_mh P (paretoAnalysis P h elements) elements of
        Inl err \<Rightarrow> Inl err
      | Inr h2 \<Rightarrow> Inr (h2, js_sort (nonDominated_compare h2) elements))"

definition multiObjectiveSort :: "problem \<Rightarrow> store \<Rightarrow> ref list \<Rightarrow> error + store \<times> ref list" where
  "multiObjectiveSort P h elements = nonDominatedSort P h elements"

section \<open>Metaheuristic: evaluation, ranking and the iteration\<close>

text \<open>\<open>problem.evaluate(elements)\<close>: every element gets the evaluation of its values.\<close>

definition problem_evaluate :: "problem \<Rightarrow> store \<Rightarrow> ref list \<Rightarrow> store" where
  "problem_evaluate P h elements =
     fold (\<lambda>r h. h(r := (h r)\<lparr>evaluation := Some (evaluation_fn P (elem_values (h r)))\<rparr>))
       elements h"

text \<open>\<open>sort(elements)\<close>: the sorted array with the store the ranking has annotated.\<close>

definition sort_mh :: "problem \<Rightarrow> store \<Rightarrow> ref list \<Rightarrow> error + store \<times> ref list" where
  "sort_mh P h elements =
     (if objectives P > 1 then multiObjectiveSort P h elements
      else Inr (h, rev (js_sort (\<lambda>a b. Fin (compare P (h a) (h b))) elements)))"

text \<open>
  \<open>evaluate(elements)\<close>: with no argument the array is \<open>this.state\<close> itself, which the sort
  reorders in place; a given array is returned sorted and the state keeps its order.
\<close>

definition evaluate :: "problem \<Rightarrow> engine \<Rightarrow> ref list option \<Rightarrow> error + ref list \<times> engine" where
  "evaluate P e els =
     (let elements = (case els of None \<Rightarrow> state e | Some xs \<Rightarrow> xs)
      in case sort_mh P (problem_evaluate P (heap e) elements) elements of
           Inl err \<Rightarrow> Inl err
         | Inr (h, sorted_elements) \<Rightarrow>
             Inr (sorted_elements,
                  onEvaluate (case els of None \<Rightarrow> e\<lparr>heap := h, state := sorted_elements\<rparr>
                              | Some _ \<Rightarrow> e\<lparr>heap := h\<rparr>)))"

text \<open>The default \<open>update()\<close>: \<open>expand()\<close>, \<open>evaluate()\<close>, \<open>sieve()\<close>.\<close>

definition update :: "problem \<Rightarrow> engine \<Rightarrow> error + engine" where
  "update P e =
     (case expand P e None of
        Inl err \<Rightarrow> Inl err
      | Inr e1 \<Rightarrow>
          (case evaluate P e1 None of
             Inl err \<Rightarrow> Inl err
           | Inr (_, e2) \<Rightarrow> Inr (onUpdate (sieve e2 None))))"

definition finished :: "problem \<Rightarrow> engine \<Rightarrow> bool" where
  "finished P e = (real_of_int (step e) \<ge> steps e \<or> sufficientElements P (map (heap e) (state e)))"

text \<open>
  \<open>analyze()\<close> with the engine's own statistics. The statistics are an external sink; the
  model keeps what can fail: \<open>this.state[0].evaluation.length\<close> needs a first element that
  has an evaluation, and the multi-objective branch reads the evaluation and the Pareto
  lists of every element.
\<close>

definition analyze :: "engine \<Rightarrow> error + engine" where
  "analyze e =
     (case state e of
        [] \<Rightarrow> Inl TypeError
      | r0 # _ \<Rightarrow>
          (case evaluation (heap e r0) of
             None \<Rightarrow> Inl TypeError
           | Some v0 \<Rightarrow>
               if length v0 = 1 then Inr (onAnalyze e)
               else if list_all (\<lambda>r. evaluation (heap e r) \<noteq> None \<and> pareto (heap e r) \<noteq> None)
                         (state e)
                    then Inr (onAnalyze e) else Inl TypeError))"

definition reset :: "engine \<Rightarrow> engine" where
  "reset e = e\<lparr>step := -1\<rparr>"

text \<open>
  \<open>advance()\<close> of the base engine, whose \<open>update\<close> is the default one: the first branch
  initiates an engine that has not started, and the step is set after either branch.
\<close>

definition advance :: "problem \<Rightarrow> engine \<Rightarrow> error + engine" where
  "advance P e =
     (case (if step e < 0
            then (case evaluate P (initiate P (reset e) None) None of
                    Inl err \<Rightarrow> Inl err | Inr (_, e1) \<Rightarrow> Inr e1)
            else update P e) of
        Inl err \<Rightarrow> Inl err
      | Inr e1 \<Rightarrow>
          (case analyze (e1\<lparr>step := (if step e1 < 0 then 0 else step e1 + 1)\<rparr>) of
             Inl err \<Rightarrow> Inl err
           | Inr e2 \<Rightarrow> Inr (onAdvance e2)))"

section \<open>Metaheuristic: state control\<close>

text \<open>The equality that \<open>nub\<close> hands to the iterable.\<close>

definition nub_equality :: "real \<Rightarrow> element \<Rightarrow> element \<Rightarrow> bool" where
  "nub_equality precision e1 e2 =
     (let values1 = elem_values e1; values2 = elem_values e2; len = length values1
      in if len \<noteq> length values2 then False
         else list_all (\<lambda>i. \<not> \<bar>values1 ! i - values2 ! i\<bar> > precision) [0..<len])"

text \<open>
  Modelled from the spec: \<open>iterable(...).nub(equality)\<close> belongs to the base library and is
  not in the sources. It keeps an element unless the equality relates it to an element
  kept before (\<open>buffer\<close>).
\<close>

fun iterable_nub :: "('a \<Rightarrow> 'a \<Rightarrow> bool) \<Rightarrow> 'a list \<Rightarrow> 'a list \<Rightarrow> 'a list" where
  "iterable_nub equality buffer [] = []"
| "iterable_nub equality buffer (x # xs) =
     (if list_ex (\<lambda>b. equality b x) buffer then iterable_nub equality buffer xs
      else x # iterable_nub equality (buffer @ [x]) xs)"

text \<open>\<open>nub(precision)\<close>: the returned size and the engine; \<open>None\<close> is a missing argument.\<close>

definition nub :: "engine \<Rightarrow> real option \<Rightarrow> nat \<times> engine" where
  "nub e p =
     (let precision = (case p of None \<Rightarrow> 0 | Some v \<Rightarrow> v);
          st = iterable_nub (\<lambda>a b. nub_equality precision (heap e a) (heap e b)) [] (state e)
      in (length st, e\<lparr>state := st\<rparr>))"

section \<open>Particle swarm\<close>

text \<open>\<open>clamp(value, min, max)\<close> of the base library.\<close>

definition clamp :: "real \<Rightarrow> real \<Rightarrow> real \<Rightarrow> real" where
  "clamp v lo hi = min hi (max lo v)"

text \<open>
  \<open>nextVelocity(element, globalBest)\<close>: the velocity and the engine after the two draws.
  \<open>element.values()\<close> are the decision values \<open>__values__\<close>. The callback of \<open>map\<close> runs once
  per decision value and raises a \<open>TypeError\<close> when the element has no velocity or no
  personal best; a vector that is too short would give \<open>NaN\<close>, so the properties are stated
  for vectors of one dimension.
\<close>

definition nextVelocity :: "engine \<Rightarrow> ref \<Rightarrow> ref \<Rightarrow> error + real list \<times> engine" where
  "nextVelocity e element gBest =
     (let h = heap e;
          localCoef = random e (drawn e) (localAcceleration e);
          globalCoef = random e (Suc (drawn e)) (globalAcceleration e);
          e1 = e\<lparr>drawn := drawn e + 2\<rparr>;
          vs = elem_values (h element)
      in if vs = [] then Inr ([], e1)
         else
           (case velocity (h element) of
              None \<Rightarrow> Inl TypeError
            | Some vel \<Rightarrow>
                (case localBest (h element) of
                   None \<Rightarrow> Inl TypeError
                 | Some lBest \<Rightarrow>
                     Inr (map (\<lambda>i. vel ! i * inertia e
                                 + localCoef * (elem_values (h lBest) ! i - vs ! i)
                                 + globalCoef * (elem_values (h gBest) ! i - vs ! i))
                            [0..<length vs], e1))))"

text \<open>
  \<open>nextElement(element, globalBest)\<close>: the new element and the engine. \<open>model[i].n\<close> raises
  a \<open>TypeError\<close> past the end of the model; \<open>result.evaluate()\<close> gives the new element its
  evaluation before the velocity and the personal best are attached.
\<close>

definition nextElement :: "problem \<Rightarrow> engine \<Rightarrow> ref \<Rightarrow> ref \<Rightarrow> error + ref \<times> engine" where
  "nextElement P e element gBest =
     (case nextVelocity e element gBest of
        Inl err \<Rightarrow> Inl err
      | Inr (nextVel, e1) \<Rightarrow>
          (let mdl = model (heap e1 element); vs = elem_values (heap e1 element)
           in if length mdl < length vs then Inl TypeError
              else
                (case localBest (heap e1 element) of
                   None \<Rightarrow> Inl TypeError
                 | Some lBest \<Rightarrow>
                     (let nextValues =
                            map (\<lambda>i. clamp (vs ! i + nextVel ! i) 0 (real (mdl ! i) - 1))
                              [0..<length vs];
                          (result, e2) = alloc (blank P nextValues) e1;
                          x = (heap e2 result)\<lparr>evaluation := Some (evaluation_fn P nextValues),
                                                velocity := Some nextVel\<rparr>;
                          y = x\<lparr>localBest :=
                                  Some (if isBetterThan P x (heap e2 lBest) then result else lBest)\<rparr>
                      in Inr (result, e2\<lparr>heap := (heap e2)(result := y)\<rparr>)))))"

text \<open>\<open>this.state.map(...)\<close> with \<open>nextElement\<close>, in the order of the state.\<close>

fun nextElements :: "problem \<Rightarrow> ref \<Rightarrow> ref list \<Rightarrow> engine \<Rightarrow> error + ref list \<times> engine" where
  "nextElements P gBest [] e = Inr ([], e)"
| "nextElements P gBest (element # elements) e =
     (case nextElement P e element gBest of
        Inl err \<Rightarrow> Inl err
      | Inr (r, e1) \<Rightarrow>
          (case nextElements P gBest elements e1 of
             Inl err \<Rightarrow> Inl err
           | Inr (rs, e2) \<Rightarrow> Inr (r # rs, e2)))"

text \<open>
  The particle swarm's \<open>update()\<close>. With an empty state \<open>globalBest\<close> and \<open>elements[0]\<close> are
  \<open>undefined\<close>; the comparison of the problem on \<open>undefined\<close> is taken to raise a
  \<open>TypeError\<close>.
\<close>

definition update_ps :: "problem \<Rightarrow> engine \<Rightarrow> error + engine" where
  "update_ps P e =
     (let e0 = (case globalBest e of
                  None \<Rightarrow> e\<lparr>globalBest := (case state e of [] \<Rightarrow> None | r # _ \<Rightarrow> Some r)\<rparr>
                | Some _ \<Rightarrow> e)
      in case globalBest e0 of
           None \<Rightarrow> Inl TypeError
         | Some gBest \<Rightarrow>
             (case nextElements P gBest (state e0) e0 of
                Inl err \<Rightarrow> Inl err
              | Inr (elements, e1) \<Rightarrow>
                  (case sort_mh P (heap e1) elements of
                     Inl err \<Rightarrow> Inl err
                   | Inr (h, sorted_elements) \<Rightarrow>
                       (case sorted_elements of
                          [] \<Rightarrow> Inl TypeError
                        | best # _ \<Rightarrow>
                            (let e2 = e1\<lparr>heap := h, state := sorted_elements\<rparr>
                             in Inr (onUpdate
                                  (if compare P (h gBest) (h best) < 0
                                   then e2\<lparr>globalBest := Some best\<rparr> else e2)))))))"

section \<open>Metaheuristic: the run\<close>

text \<open>
  The loop of \<open>run\<close> is defined by recursion on the engine; that the recursion ends rests
  on what one advance does to the step counter, which the lemmas before the definition
  establish.
\<close>

lemma new_Elements_frame:
  "new_Elements P n e = (rs, e1) \<Longrightarrow>
     state e1 = state e \<and> logged e1 = logged e \<and> events e1 = events e \<and> step e1 = step e
     \<and> steps e1 = steps e \<and> size_mh e1 = size_mh e \<and> expansionRate e1 = expansionRate e
     \<and> length rs = n"
proof (induction n arbitrary: e rs e1)
  case 0
  then show ?case by simp
next
  case (Suc n)
  obtain r ea where a: "new_Element P e = (r, ea)" by (cases "new_Element P e")
  obtain rs' eb where b: "new_Elements P n ea = (rs', eb)" by (cases "new_Elements P n ea")
  from a have fa: "state ea = state e \<and> logged ea = logged e \<and> events ea = events e
     \<and> step ea = step e \<and> steps ea = steps e \<and> size_mh ea = size_mh e
     \<and> expansionRate ea = expansionRate e"
    by (auto simp: new_Element_def alloc_def)
  from Suc.prems a b have "rs = r # rs'" "e1 = eb" by simp_all
  with Suc.IH[OF b] fa show ?case by simp
qed

lemma expansion_frame:
  assumes "expansion P e sz = Inr (xs, e1)"
  shows "state e1 = state e \<and> logged e1 = logged e \<and> events e1 = events e
     \<and> step e1 = step e \<and> steps e1 = steps e \<and> size_mh e1 = size_mh e
     \<and> expansionRate e1 = expansionRate e"
  using assms new_Elements_frame[of P _ e xs e1]
  by (auto simp: expansion_def Let_def split: if_splits)

lemma expansion_empty:
  assumes "expansion P e sz = Inr ([], e1)"
  shows "e1 = e"
proof -
  from assms obtain n where n: "new_Elements P n e = ([], e1)"
    by (auto simp: expansion_def Let_def split: if_splits)
  from new_Elements_frame[OF n] have "n = 0" by simp
  with n show ?thesis by simp
qed

lemma expand_result:
  assumes "(case ex of Some xs \<Rightarrow> Inr (xs, e) | None \<Rightarrow> expansion P e None) = Inr (xs, e1)"
  shows "expand P e ex =
     Inr (onExpand (if xs = [] then log_msg Warn ''Expansion is empty'' e1
                    else e1\<lparr>state := state e1 @ xs\<rparr>))"
  using assms by (cases xs) (simp_all add: expand_def)

text \<open>
  What an operation inside one advance leaves alone: the configuration, the step counter
  and the number of \<open>advanced\<close> events emitted so far.
\<close>

definition same_run :: "engine \<Rightarrow> engine \<Rightarrow> bool" where
  "same_run e e' \<longleftrightarrow>
     steps e' = steps e \<and> step e' = step e \<and> size_mh e' = size_mh e
     \<and> expansionRate e' = expansionRate e
     \<and> count_list (events e') Advanced = count_list (events e) Advanced
     \<and> count_list (events e') Finished = count_list (events e) Finished"

lemma same_run_refl [simp]: "same_run e e"
  by (simp add: same_run_def)

lemma same_run_trans: "same_run a b \<Longrightarrow> same_run b c \<Longrightarrow> same_run a c"
  by (simp add: same_run_def)

lemma new_Elements_same_run: "new_Elements P n e = (rs, e1) \<Longrightarrow> same_run e e1"
  using new_Elements_frame[of P n e rs e1] by (simp add: same_run_def)

lemma initiate_same_run: "same_run e (initiate P e sz)"
proof -
  obtain rs e1 where a: "new_Elements P (case sz of None \<Rightarrow> size_mh e | Some k \<Rightarrow> k) e = (rs, e1)"
    by (cases "new_Elements P (case sz of None \<Rightarrow> size_mh e | Some k \<Rightarrow> k) e")
  from new_Elements_same_run[OF a] a show ?thesis
    by (simp add: initiate_def Let_def onInitiate_def log_msg_def emit_def same_run_def)
qed

lemma expand_same_run: "expand P e ex = Inr e' \<Longrightarrow> same_run e e'"
proof -
  assume r: "expand P e ex = Inr e'"
  then obtain xs e1 where
    a: "(case ex of Some xs \<Rightarrow> Inr (xs, e) | None \<Rightarrow> expansion P e None) = Inr (xs, e1)"
    by (auto simp: expand_def split: sum.splits)
  have "same_run e e1"
  proof (cases ex)
    case None
    with a have "expansion P e None = Inr (xs, e1)" by simp
    from expansion_frame[OF this] show ?thesis by (simp add: same_run_def)
  next
    case (Some ys)
    with a show ?thesis by simp
  qed
  moreover from expand_result[OF a] r
  have "e' = onExpand (if xs = [] then log_msg Warn ''Expansion is empty'' e1
                       else e1\<lparr>state := state e1 @ xs\<rparr>)" by simp
  ultimately show ?thesis
    by (simp add: onExpand_def log_msg_def emit_def same_run_def)
qed

lemma evaluate_same_run: "evaluate P e els = Inr (s, e') \<Longrightarrow> same_run e e'"
  by (auto simp: evaluate_def Let_def onEvaluate_def log_msg_def emit_def same_run_def
      split: sum.splits option.splits)

lemma sieve_same_run: "same_run e (sieve e sz)"
  by (simp add: sieve_def Let_def onSieve_def log_msg_def emit_def same_run_def)

lemma update_same_run: "update P e = Inr e' \<Longrightarrow> same_run e e'"
proof -
  assume r: "update P e = Inr e'"
  then obtain e1 s e2 where a: "expand P e None = Inr e1" "evaluate P e1 None = Inr (s, e2)"
    "e' = onUpdate (sieve e2 None)"
    by (auto simp: update_def split: sum.splits)
  have "same_run e2 e'"
    using sieve_same_run[of e2 None] a(3)
    by (simp add: onUpdate_def log_msg_def emit_def same_run_def)
  with expand_same_run[OF a(1)] evaluate_same_run[OF a(2)] show ?thesis
    by (blast intro: same_run_trans)
qed

lemma analyze_result: "analyze e = Inr e' \<Longrightarrow> e' = onAnalyze e"
  by (auto simp: analyze_def split: list.splits option.splits if_splits)

lemma advance_step:
  assumes "advance P e = Inr e'"
  shows "steps e' = steps e \<and> size_mh e' = size_mh e \<and> expansionRate e' = expansionRate e
     \<and> step e' = (if step e < 0 then 0 else step e + 1)
     \<and> count_list (events e') Advanced = count_list (events e) Advanced + 1
     \<and> count_list (events e') Finished = count_list (events e) Finished"
proof -
  from assms obtain e1 where
    a: "(if step e < 0
         then (case evaluate P (initiate P (reset e) None) None of
                 Inl err \<Rightarrow> Inl err | Inr (_, e1) \<Rightarrow> Inr e1)
         else update P e) = Inr e1"
    and b: "analyze (e1\<lparr>step := (if step e1 < 0 then 0 else step e1 + 1)\<rparr>) = Inr (onAnalyze (e1\<lparr>step := (if step e1 < 0 then 0 else step e1 + 1)\<rparr>))"
    and c: "e' = onAdvance (onAnalyze (e1\<lparr>step := (if step e1 < 0 then 0 else step e1 + 1)\<rparr>))"
    by (auto simp: advance_def split: sum.splits dest: analyze_result)
  have "steps e1 = steps e \<and> size_mh e1 = size_mh e \<and> expansionRate e1 = expansionRate e
     \<and> step e1 = (if step e < 0 then -1 else step e)
     \<and> count_list (events e1) Advanced = count_list (events e) Advanced
     \<and> count_list (events e1) Finished = count_list (events e) Finished"
  proof (cases "step e < 0")
    case True
    with a obtain s where "evaluate P (initiate P (reset e) None) None = Inr (s, e1)"
      by (auto split: sum.splits)
    from evaluate_same_run[OF this] initiate_same_run[of "reset e" P None] True
    show ?thesis by (simp add: same_run_def reset_def)
  next
    case False
    with a have "update P e = Inr e1" by simp
    from update_same_run[OF this] False show ?thesis by (simp add: same_run_def)
  qed
  then show ?thesis
    by (simp add: c onAdvance_def onAnalyze_def log_msg_def emit_def)
qed

text \<open>
  \<open>Future.doWhile(advance, continues)\<close> of the base library: the action runs, then the
  condition is asked, and the action runs again as long as the condition holds.
\<close>

function run_loop :: "problem \<Rightarrow> engine \<Rightarrow> error + engine" where
  "run_loop P e =
     (case advance P e of
        Inl err \<Rightarrow> Inl err
      | Inr e1 \<Rightarrow> if \<not> finished P e1 then run_loop P e1 else Inr e1)"
  by pat_completeness auto
termination
proof (relation "measure (\<lambda>(P, e). nat (\<lceil>steps e\<rceil> - step e))")
  show "wf (measure (\<lambda>(P, e). nat (\<lceil>steps e\<rceil> - step e)))" by simp
next
  fix P e e1
  assume a: "advance P e = Inr e1" and b: "\<not> finished P e1"
  from advance_step[OF a] have s: "steps e1 = steps e"
    "step e1 = (if step e < 0 then 0 else step e + 1)" by simp_all
  from b have "real_of_int (step e1) < steps e1" by (simp add: finished_def)
  then have c: "step e1 < \<lceil>steps e\<rceil>" using s(1) by (simp add: less_ceiling_iff)
  have "nat (\<lceil>steps e\<rceil> - step e1) < nat (\<lceil>steps e\<rceil> - step e)"
  proof (cases "step e < 0")
    case True
    with s(2) have "step e1 = 0" by simp
    with True c show ?thesis by linarith
  next
    case False
    with s(2) have "step e1 = step e + 1" by simp
    with False c show ?thesis by linarith
  qed
  then have "nat (\<lceil>steps e1\<rceil> - step e1) < nat (\<lceil>steps e\<rceil> - step e)"
    by (simp only: s(1))
  then show "((P, e1), P, e) \<in> measure (\<lambda>(P, e). nat (\<lceil>steps e\<rceil> - step e))" by simp
qed

text \<open>
  \<open>run()\<close>: the value the future resolves to, \<open>this.state[0]\<close> (\<open>None\<close> for \<open>undefined\<close>),
  and the engine.
\<close>

definition run :: "problem \<Rightarrow> engine \<Rightarrow> error + ref option \<times> engine" where
  "run P e =
     (case run_loop P e of
        Inl err \<Rightarrow> Inl err
      | Inr e1 \<Rightarrow>
          (let e2 = onFinish e1
           in Inr (case state e2 of [] \<Rightarrow> None | r # _ \<Rightarrow> Some r, e2)))"

declare run_loop.simps [simp del]

section \<open>Vocabulary of the properties\<close>

text \<open>
  Evaluated elements: every element of the list has an evaluation with one component per
  objective.
\<close>

definition evaluated :: "problem \<Rightarrow> store \<Rightarrow> ref list \<Rightarrow> bool" where
  "evaluated P h es =
     list_all (\<lambda>r. case evaluation (h r) of None \<Rightarrow> False | Some v \<Rightarrow> length v = objectives P) es"

text \<open>The value of an evaluated element in the objective \<open>i\<close>.\<close>

definition objective_value :: "store \<Rightarrow> nat \<Rightarrow> ref \<Rightarrow> real" where
  "objective_value h i r = (case evaluation (h r) of None \<Rightarrow> 0 | Some v \<Rightarrow> v ! i)"

text \<open>
  The rankings that \<open>crowdingDistance\<close> goes through: the ranking copy is sorted by each
  objective in turn, each sort starting from the order the previous one left.
\<close>

fun rankings :: "store \<Rightarrow> nat list \<Rightarrow> ref list \<Rightarrow> ref list list" where
  "rankings h [] es = []"
| "rankings h (i # is) es =
     (let es1 = js_sort (objective_compare h i) es in es1 # rankings h is es1)"

text \<open>
  The value of the next neighbour of \<open>r\<close> in the ranking minus the value of the previous
  one; \<open>0\<close> when \<open>r\<close> has no two neighbours.
\<close>

fun neighbour_gap :: "(ref \<Rightarrow> real) \<Rightarrow> ref list \<Rightarrow> ref \<Rightarrow> real" where
  "neighbour_gap f (a # b # c # xs) r =
     (if r = b then f c - f a else neighbour_gap f (b # c # xs) r)"
| "neighbour_gap f _ r = 0"

text \<open>A crowding distance that is a number or \<open>+Infinity\<close>.\<close>

definition is_distance :: "number \<Rightarrow> bool" where
  "is_distance d = (case d of Fin x \<Rightarrow> True | PInf \<Rightarrow> True | NInf \<Rightarrow> False | NaN \<Rightarrow> False)"

text \<open>
  What one round of the loop over the objectives leaves in the store, for the sorted
  ranking copy \<open>es1\<close>.
\<close>

definition crowding_round :: "nat \<Rightarrow> store \<Rightarrow> ref list \<Rightarrow> store" where
  "crowding_round i h es1 =
     fold (crowding_step i es1) [1..<length es1 - 1]
       (set_distance (es1 ! (length es1 - 1)) PInf (set_distance (es1 ! 0) PInf h))"

text \<open>
  The pairs of indices that the two loops of \<open>paretoAnalysis\<close> visit, in the order of the
  visits.
\<close>

definition index_pairs :: "nat \<Rightarrow> (nat \<times> nat) list" where
  "index_pairs len = concat (map (\<lambda>i1. map (Pair i1) [i1 + 1..<len]) [0..<len])"

text \<open>
  The invariant of the loop over the pairs: the lists are defined and mirror each other,
  and a recorded domination is between two different elements, is not recorded in the
  other direction and belongs to none of the pairs still to come.
\<close>

definition pareto_invariant :: "ref list \<Rightarrow> (nat \<times> nat) list \<Rightarrow> store \<Rightarrow> bool" where
  "pareto_invariant es ps h \<longleftrightarrow>
     (\<forall>a \<in> set es. pareto (h a) \<noteq> None)
     \<and> (\<forall>a \<in> set es. \<forall>b \<in> set es.
           b \<in> set (dominators_of h a) \<longleftrightarrow> a \<in> set (dominated_of h b))
     \<and> (\<forall>a \<in> set es. \<forall>b \<in> set es. b \<in> set (dominators_of h a) \<longrightarrow>
           a \<noteq> b \<and> a \<notin> set (dominators_of h b)
           \<and> (\<forall>(i, j) \<in> set ps. \<not> (es ! i = a \<and> es ! j = b) \<and> \<not> (es ! i = b \<and> es ! j = a)))"

text \<open>The comparison \<open>a \<le> b\<close> of JavaScript numbers.\<close>

fun number_le :: "number \<Rightarrow> number \<Rightarrow> bool" where
  "number_le (Fin a) (Fin b) = (a \<le> b)"
| "number_le NaN _ = False"
| "number_le _ NaN = False"
| "number_le NInf _ = True"
| "number_le _ PInf = True"
| "number_le PInf _ = False"
| "number_le _ NInf = False"

text \<open>
  The order of \<open>nonDominatedSort\<close>: fewer dominators first, and among elements with the
  same number of dominators the larger crowding distance first.
\<close>

definition ranked_before :: "store \<Rightarrow> ref \<Rightarrow> ref \<Rightarrow> bool" where
  "ranked_before h a b \<longleftrightarrow>
     length (dominators_of h a) < length (dominators_of h b)
     \<or> (length (dominators_of h a) = length (dominators_of h b)
         \<and> number_le (distance_of h b) (distance_of h a))"

text \<open>
  A particle whose vectors have the dimension of its position: it has a velocity and a
  personal best of that dimension, the global best has that dimension, and the model
  describes every dimension.
\<close>

definition particle_ok :: "store \<Rightarrow> ref \<Rightarrow> ref \<Rightarrow> bool" where
  "particle_ok h element gBest \<longleftrightarrow>
     (case velocity (h element) of None \<Rightarrow> False
      | Some v \<Rightarrow> length v = length (elem_values (h element)))
     \<and> (case localBest (h element) of None \<Rightarrow> False
        | Some lBest \<Rightarrow> length (elem_values (h lBest)) = length (elem_values (h element)))
     \<and> length (elem_values (h gBest)) = length (elem_values (h element))
     \<and> length (elem_values (h element)) \<le> length (model (h element))"

text \<open>
  A swarm that \<open>update\<close> can move: the particles of the state are allocated objects with a
  velocity, a personal best and a model for every dimension, and the problem evaluates
  every element on all its objectives.
\<close>

definition swarm_ok :: "problem \<Rightarrow> engine \<Rightarrow> bool" where
  "swarm_ok P e \<longleftrightarrow>
     (\<forall>vs. length (evaluation_fn P vs) = objectives P)
     \<and> list_all (\<lambda>r. r < allocated e \<and> velocity (heap e r) \<noteq> None
                     \<and> localBest (heap e r) \<noteq> None
                     \<and> length (elem_values (heap e r)) \<le> length (model (heap e r))) (state e)"

text \<open>
  A swarm whose references stay inside the store: the global best, when one is set, the
  particles of the state and their personal bests are objects allocated before the update.
\<close>

definition swarm_closed :: "engine \<Rightarrow> bool" where
  "swarm_closed e \<longleftrightarrow>
     (case globalBest e of None \<Rightarrow> True | Some g \<Rightarrow> g < allocated e)
     \<and> list_all (\<lambda>r. r < allocated e
                     \<and> (case localBest (heap e r) of None \<Rightarrow> True | Some l \<Rightarrow> l < allocated e))
         (state e)"

text \<open>
  The engine as \<open>nextElement\<close> finds it for the \<open>k\<close>-th particle of the state: \<open>k\<close> elements
  have been built and two random numbers drawn for each of them.
\<close>

definition before_particle :: "engine \<Rightarrow> nat \<Rightarrow> engine" where
  "before_particle e k = e\<lparr>allocated := allocated e + k, drawn := drawn e + 2 * k\<rparr>"

text \<open>
  An element without the annotations \<open>pareto\<close> and \<open>crowdingDistance\<close> that the multi-objective
  ranking writes, and the store of \<open>e'\<close> in which the objects allocated since \<open>e\<close> are not
  ranked yet.
\<close>

definition unranked :: "element \<Rightarrow> element" where
  "unranked x = x\<lparr>pareto := None, crowdingDistance := None\<rparr>"

definition unranked_store :: "engine \<Rightarrow> engine \<Rightarrow> store" where
  "unranked_store e e' =
     (\<lambda>x. if allocated e \<le> x \<and> x < allocated e' then unranked (heap e' x) else heap e' x)"

text \<open>
  The store \<open>h'\<close> differs from \<open>h\<close> at most in the ranking annotations of the elements of \<open>A\<close>.
\<close>

definition ranks_only :: "ref set \<Rightarrow> store \<Rightarrow> store \<Rightarrow> bool" where
  "ranks_only A h h' \<longleftrightarrow>
     (\<forall>x. unranked (h' x) = unranked (h x)) \<and> (\<forall>x. x \<notin> A \<longrightarrow> h' x = h x)"

text \<open>
  A run that cannot fail: the problem has an objective and evaluates every element on all
  its objectives, the population size is positive and the expansion rate, when set, is
  not negative.
\<close>

definition run_ok :: "problem \<Rightarrow> engine \<Rightarrow> bool" where
  "run_ok P e \<longleftrightarrow>
     0 < objectives P \<and> (\<forall>vs. length (evaluation_fn P vs) = objectives P)
     \<and> 0 < size_mh e \<and> (case expansionRate e of None \<Rightarrow> True | Some r \<Rightarrow> 0 \<le> r)"

section \<open>Concrete inputs\<close>

definition no_element :: element where
  "no_element = \<lparr>elem_values = [], model = [], evaluation = None, pareto = None,
     crowdingDistance = None, velocity = None, localBest = None\<rparr>"

definition point :: "real list \<Rightarrow> element" where
  "point vs = no_element\<lparr>elem_values := vs\<rparr>"

text \<open>
  A problem with one objective: elements have one decision value, the \<open>k\<close>-th element
  built is \<open>[k]\<close>, and the evaluation of an element is the sum of its decision values.
\<close>

definition line_problem :: problem where
  "line_problem = \<lparr>objectives = 1, Element = (\<lambda>k. [real k]), Element_model = [10],
     evaluation_fn = (\<lambda>vs. [sum_list vs]),
     compare = (\<lambda>a b. 0), domination = (\<lambda>a b. 0), isBetterThan = (\<lambda>a b. False),
     sufficientElements = (\<lambda>xs. False)\<rparr>"

text \<open>An engine holding four elements at the addresses \<open>0\<close> to \<open>3\<close>, configured for five.\<close>

definition four_engine :: engine where
  "four_engine = \<lparr>heap = (\<lambda>r. point [real r]), allocated = 4, size_mh = 5,
     state = [0, 1, 2, 3], steps = 100, step = 0, expansionRate = None, events = [],
     logged = [], random = (\<lambda>k m. m / 2), drawn = 0, inertia = 1,
     localAcceleration = 1 / 2, globalAcceleration = 3 / 10, globalBest = None\<rparr>"

text \<open>Four elements with the decision values \<open>[0]\<close>, \<open>[0]\<close>, \<open>[1]\<close>, \<open>[1]\<close>.\<close>

definition dup_engine :: engine where
  "dup_engine = \<lparr>heap = (\<lambda>r. point [real (r div 2)]), allocated = 4, size_mh = 5,
     state = [0, 1, 2, 3], steps = 100, step = 0, expansionRate = None, events = [],
     logged = [], random = (\<lambda>k m. m / 2), drawn = 0, inertia = 1,
     localAcceleration = 1 / 2, globalAcceleration = 3 / 10, globalBest = None\<rparr>"

text \<open>
  Two objectives, and a store whose element at the address \<open>r\<close> has the decision value
  \<open>[r]\<close> and the evaluation \<open>[r, 4 - r]\<close>: the elements \<open>0\<close>, \<open>1\<close>, \<open>2\<close> are ranked in this
  order by the first objective and in the opposite order by the second. The comparison
  of the problem lets the element with the smaller decision value dominate.
\<close>

definition two_objectives :: problem where
  "two_objectives = line_problem\<lparr>objectives := 2,
     evaluation_fn := (\<lambda>vs. [sum_list vs, 4 - sum_list vs]),
     domination := (\<lambda>a b. elem_values b ! 0 - elem_values a ! 0)\<rparr>"

definition front_store :: store where
  "front_store = (\<lambda>r. (point [real r])\<lparr>evaluation := Some [real r, 4 - real r]\<rparr>)"

text \<open>
  Two objectives none of whose elements dominates another, and a store whose element at
  the address \<open>r\<close> has the evaluation \<open>[r\<^sup>2, 36 - r\<^sup>2]\<close>: all the dominator counts are equal,
  and the neighbours of an element are the further apart the larger \<open>r\<close> is.
\<close>

definition curve_objectives :: problem where
  "curve_objectives = two_objectives\<lparr>
     evaluation_fn := (\<lambda>vs. [sum_list vs * sum_list vs, 36 - sum_list vs * sum_list vs]),
     domination := (\<lambda>a b. 0)\<rparr>"

definition curve_store :: store where
  "curve_store = (\<lambda>r. (point [real r])\<lparr>evaluation := Some [real r * real r, 36 - real r * real r]\<rparr>)"

text \<open>
  A swarm: the particle at the address \<open>r\<close> is at the position \<open>[r]\<close> of a dimension with
  ten values, moves with the velocity \<open>[1]\<close>, and is its own personal best.
\<close>

definition swarm_store :: store where
  "swarm_store = (\<lambda>r. (point [real r])\<lparr>model := [10], evaluation := Some [real r],
     velocity := Some [1], localBest := Some r\<rparr>)"

definition swarm_engine :: engine where
  "swarm_engine = four_engine\<lparr>heap := swarm_store, allocated := 5, state := [0, 2]\<rparr>"

text \<open>The problem on the line in which the element with the larger decision value is better.\<close>

definition climb_problem :: problem where
  "climb_problem = line_problem\<lparr>compare := (\<lambda>a b. elem_values a ! 0 - elem_values b ! 0)\<rparr>"

text \<open>An engine that has not started: population size two, step limit one.\<close>

definition fresh_engine :: engine where
  "fresh_engine = four_engine\<lparr>allocated := 0, size_mh := 2, state := [], steps := 1, step := -1\<rparr>"

section \<open>Properties of \<open>sieve\<close>\<close>

lemma sieve_state:
  "state (sieve e sz) =
     (if int (length (state e)) > (case sz of None \<Rightarrow> int (size_mh e) | Some s \<Rightarrow> \<lfloor>s\<rfloor>)
      then take (size_mh e) (state e) else state e)"
  by (simp add: sieve_def onSieve_def log_msg_def emit_def)

lemma sieve_default: "state (sieve e None) = take (size_mh e) (state e)"
  by (simp add: sieve_state)

text \<open>
  C2. \<open>sieve(k)\<close> should truncate the population to its first \<open>min(len, k)\<close> elements. The
  source compares the length with the given size but slices with the configured size:
  an engine configured for five that holds four elements keeps all four when asked to
  sieve to two.
\<close>

theorem sieve_given_size_not_used:
  "state (sieve four_engine (Some 2)) = [0, 1, 2, 3]
   \<and> length (state (sieve four_engine (Some 2))) > 2"
  by (simp add: sieve_state four_engine_def)

section \<open>Properties of \<open>expand\<close>\<close>

text \<open>
  C9. An empty expansion, given by the caller or generated by \<open>expansion()\<close>, leaves the
  state and the store as they were and logs the warning; an expansion that is not empty
  is appended after the elements of the state, with no warning.
\<close>

theorem expand_empty_warns_else_appends:
  "(\<exists>e'. expand P e (Some []) = Inr e' \<and> state e' = state e \<and> heap e' = heap e
         \<and> logged e' = logged e @ [(Warn, ''Expansion is empty''),
                                     (Debug, ''State has been expanded. Nos exploramus.'')]
         \<and> events e' = events e @ [Expanded])
   \<and> (\<forall>e1. expansion P e None = Inr ([], e1) \<longrightarrow>
        (\<exists>e'. expand P e None = Inr e' \<and> state e' = state e \<and> heap e' = heap e
           \<and> logged e' = logged e @ [(Warn, ''Expansion is empty''),
                                       (Debug, ''State has been expanded. Nos exploramus.'')]
           \<and> events e' = events e @ [Expanded]))
   \<and> (\<forall>xs. xs \<noteq> [] \<longrightarrow>
        (\<exists>e'. expand P e (Some xs) = Inr e' \<and> state e' = state e @ xs \<and> heap e' = heap e
           \<and> logged e' = logged e @ [(Debug, ''State has been expanded. Nos exploramus.'')]))
   \<and> (\<forall>xs e1. expansion P e None = Inr (xs, e1) \<and> xs \<noteq> [] \<longrightarrow>
        (\<exists>e'. expand P e None = Inr e' \<and> state e' = state e @ xs
           \<and> logged e' = logged e @ [(Debug, ''State has been expanded. Nos exploramus.'')]))"
proof (intro conjI allI impI)
  show "\<exists>e'. expand P e (Some []) = Inr e' \<and> state e' = state e \<and> heap e' = heap e
         \<and> logged e' = logged e @ [(Warn, ''Expansion is empty''),
                                     (Debug, ''State has been expanded. Nos exploramus.'')]
         \<and> events e' = events e @ [Expanded]"
    by (simp add: expand_def onExpand_def log_msg_def emit_def)
next
  fix e1 assume a: "expansion P e None = Inr ([], e1)"
  then have "e1 = e" by (rule expansion_empty)
  with a have "expand P e None = Inr (onExpand (log_msg Warn ''Expansion is empty'' e))"
    using expand_result[where ex=None and e=e and P=P and xs="[]" and ?e1.0=e1] by simp
  then show "\<exists>e'. expand P e None = Inr e' \<and> state e' = state e \<and> heap e' = heap e
           \<and> logged e' = logged e @ [(Warn, ''Expansion is empty''),
                                       (Debug, ''State has been expanded. Nos exploramus.'')]
           \<and> events e' = events e @ [Expanded]"
    by (simp add: onExpand_def log_msg_def emit_def)
next
  fix xs :: "ref list" assume "xs \<noteq> []"
  then have "expand P e (Some xs) = Inr (onExpand (e\<lparr>state := state e @ xs\<rparr>))"
    using expand_result[where ex="Some xs" and e=e and P=P and xs=xs and ?e1.0=e] by simp
  then show "\<exists>e'. expand P e (Some xs) = Inr e' \<and> state e' = state e @ xs \<and> heap e' = heap e
           \<and> logged e' = logged e @ [(Debug, ''State has been expanded. Nos exploramus.'')]"
    by (simp add: onExpand_def log_msg_def emit_def)
next
  fix xs e1 assume a: "expansion P e None = Inr (xs, e1) \<and> xs \<noteq> []"
  then have "expand P e None = Inr (onExpand (e1\<lparr>state := state e1 @ xs\<rparr>))"
    using expand_result[where ex=None and e=e and P=P and xs=xs and ?e1.0=e1] by simp
  moreover from a have "state e1 = state e \<and> logged e1 = logged e"
    using expansion_frame[of P e None xs e1] by simp
  ultimately show "\<exists>e'. expand P e None = Inr e' \<and> state e' = state e @ xs
           \<and> logged e' = logged e @ [(Debug, ''State has been expanded. Nos exploramus.'')]"
    by (simp add: onExpand_def log_msg_def emit_def)
qed

theorem expand_empty_warns_else_appends_witness:
  "(\<exists>e'. expand line_problem (four_engine\<lparr>expansionRate := Some 0\<rparr>) None = Inr e'
          \<and> state e' = [0, 1, 2, 3]
          \<and> logged e' = [(Warn, ''Expansion is empty''),
                          (Debug, ''State has been expanded. Nos exploramus.'')])
   \<and> (\<exists>e'. expand line_problem four_engine (Some []) = Inr e' \<and> state e' = [0, 1, 2, 3])
   \<and> (\<exists>e'. expand line_problem four_engine (Some [7]) = Inr e' \<and> state e' = [0, 1, 2, 3, 7])
   \<and> (\<exists>e'. expand line_problem four_engine None = Inr e'
          \<and> state e' = [0, 1, 2, 3, 4, 5, 6, 7, 8])"
proof -
  let ?z = "four_engine\<lparr>expansionRate := Some 0\<rparr>"
  have a: "expansion line_problem ?z None = Inr ([], ?z)"
    by (simp add: expansion_def four_engine_def)
  have b: "\<exists>e1. expansion line_problem four_engine None = Inr ([4, 5, 6, 7, 8], e1)"
    by (simp add: expansion_def four_engine_def new_Element_def alloc_def eval_nat_numeral)
  have s: "state four_engine = [0, 1, 2, 3]" "logged four_engine = []"
    "state ?z = [0, 1, 2, 3]" "logged ?z = []"
    by (simp_all add: four_engine_def)
  from a expand_empty_warns_else_appends[of line_problem ?z] s
  have 1: "\<exists>e'. expand line_problem ?z None = Inr e' \<and> state e' = [0, 1, 2, 3]
          \<and> logged e' = [(Warn, ''Expansion is empty''),
                          (Debug, ''State has been expanded. Nos exploramus.'')]"
    by fastforce
  from expand_empty_warns_else_appends[of line_problem four_engine] s
  have 2: "\<exists>e'. expand line_problem four_engine (Some []) = Inr e' \<and> state e' = [0, 1, 2, 3]"
    by fastforce
  have "[7::nat] \<noteq> []" by simp
  with expand_empty_warns_else_appends[of line_problem four_engine] s
  have 3: "\<exists>e'. expand line_problem four_engine (Some [7]) = Inr e' \<and> state e' = [0, 1, 2, 3, 7]"
    by fastforce
  from b obtain e1 where "expansion line_problem four_engine None = Inr ([4, 5, 6, 7, 8], e1)
     \<and> [4, 5, 6, 7, 8 :: nat] \<noteq> []" by auto
  with expand_empty_warns_else_appends[of line_problem four_engine] s
  have 4: "\<exists>e'. expand line_problem four_engine None = Inr e'
          \<and> state e' = [0, 1, 2, 3, 4, 5, 6, 7, 8]"
    by fastforce
  from 1 2 3 4 show ?thesis by blast
qed

section \<open>Properties of \<open>nub\<close>\<close>

lemma iterable_nub_subseq: "subseq (iterable_nub eq buf xs) xs"
  by (induction xs arbitrary: buf) auto

lemma iterable_nub_buffer:
  "\<forall>b\<in>set buf. \<forall>x\<in>set (iterable_nub eq buf xs). \<not> eq b x"
proof (induction xs arbitrary: buf)
  case Nil
  then show ?case by simp
next
  case (Cons a xs)
  show ?case
  proof (cases "list_ex (\<lambda>b. eq b a) buf")
    case True
    then show ?thesis using Cons.IH[of buf] by simp
  next
    case False
    then show ?thesis using Cons.IH[of "buf @ [a]"] by (auto simp: list_ex_iff)
  qed
qed

lemma iterable_nub_pairwise:
  "sorted_wrt (\<lambda>a b. \<not> eq a b) (iterable_nub eq buf xs)"
proof (induction xs arbitrary: buf)
  case Nil
  then show ?case by simp
next
  case (Cons a xs)
  show ?case
  proof (cases "list_ex (\<lambda>b. eq b a) buf")
    case True
    then show ?thesis using Cons.IH[of buf] by simp
  next
    case False
    then show ?thesis using Cons.IH[of "buf @ [a]"] iterable_nub_buffer[of "buf @ [a]" eq xs]
      by auto
  qed
qed

lemma iterable_nub_covered:
  "x \<in> set xs \<Longrightarrow> \<exists>y \<in> set buf \<union> set (iterable_nub eq buf xs). y = x \<or> eq y x"
proof (induction xs arbitrary: buf)
  case Nil
  then show ?case by simp
next
  case (Cons a xs)
  show ?case
  proof (cases "list_ex (\<lambda>b. eq b a) buf")
    case True
    then show ?thesis using Cons.prems Cons.IH[of buf] by (auto simp: list_ex_iff)
  next
    case False
    then show ?thesis using Cons.prems Cons.IH[of "buf @ [a]"] by auto
  qed
qed

lemma nub_equality_iff:
  "nub_equality precision a b \<longleftrightarrow>
     length (elem_values a) = length (elem_values b)
     \<and> (\<forall>k < length (elem_values a). \<bar>elem_values a ! k - elem_values b ! k\<bar> \<le> precision)"
  by (auto simp: nub_equality_def Let_def list_all_iff not_less)

lemma nub_equality_sym: "nub_equality precision a b = nub_equality precision b a"
  by (auto simp: nub_equality_iff abs_minus_commute)

lemma nub_equality_zero: "nub_equality 0 a b \<longleftrightarrow> elem_values a = elem_values b"
  by (auto simp: nub_equality_iff list_eq_iff_nth_eq)

text \<open>
  C8. After \<open>nub(p)\<close> no two elements of the state have decision vectors of the same
  dimension that differ by at most \<open>p\<close> in every dimension; every element of the old state
  is kept or within \<open>p\<close> of a kept one, so that with \<open>p = 0\<close> only elements with exactly
  the values of a kept element are removed; the new state is a subsequence of the old
  one, never longer, and the returned number is its length.
\<close>

theorem nub_keeps_no_close_pair:
  assumes "nub e p = (n, e')" and "precision = (case p of None \<Rightarrow> 0 | Some v \<Rightarrow> v)"
  shows "(\<forall>i j. i < length (state e') \<and> j < length (state e') \<and> i \<noteq> j \<longrightarrow>
            \<not> (length (elem_values (heap e' (state e' ! i)))
                 = length (elem_values (heap e' (state e' ! j)))
               \<and> (\<forall>k < length (elem_values (heap e' (state e' ! i))).
                     \<bar>elem_values (heap e' (state e' ! i)) ! k
                       - elem_values (heap e' (state e' ! j)) ! k\<bar> \<le> precision)))
       \<and> (\<forall>x \<in> set (state e). \<exists>y \<in> set (state e').
             y = x \<or> nub_equality precision (heap e y) (heap e x))
       \<and> (precision = 0 \<longrightarrow>
            (\<forall>x \<in> set (state e). \<exists>y \<in> set (state e').
               elem_values (heap e y) = elem_values (heap e x)))
       \<and> subseq (state e') (state e) \<and> heap e' = heap e
       \<and> length (state e') \<le> length (state e)
       \<and> n = length (state e')"
proof -
  let ?eq = "\<lambda>a b. nub_equality precision (heap e a) (heap e b)"
  from assms have st: "state e' = iterable_nub ?eq [] (state e)"
    and hp: "heap e' = heap e" and n: "n = length (state e')"
    by (auto simp: nub_def Let_def)
  have sub: "subseq (state e') (state e)"
    unfolding st by (rule iterable_nub_subseq)
  have srt: "sorted_wrt (\<lambda>a b. \<not> ?eq a b) (state e')"
    unfolding st by (rule iterable_nub_pairwise)
  have pair: "\<not> ?eq (state e' ! i) (state e' ! j)"
    if "i < length (state e')" "j < length (state e')" "i \<noteq> j" for i j
  proof (cases "i < j")
    case True
    with srt that show ?thesis by (simp add: sorted_wrt_iff_nth_less)
  next
    case False
    with that have "j < i" by simp
    with srt that have "\<not> ?eq (state e' ! j) (state e' ! i)"
      by (simp add: sorted_wrt_iff_nth_less)
    then show ?thesis by (simp add: nub_equality_sym)
  qed
  have cov: "\<exists>y \<in> set (state e'). y = x \<or> ?eq y x" if "x \<in> set (state e)" for x
    using iterable_nub_covered[OF that, of "[]" ?eq] by (simp add: st)
  have cov0: "\<exists>y \<in> set (state e'). elem_values (heap e y) = elem_values (heap e x)"
    if "x \<in> set (state e)" "precision = 0" for x
    using cov[OF that(1)] that(2) by (auto simp: nub_equality_zero)
  from pair have 1: "\<forall>i j. i < length (state e') \<and> j < length (state e') \<and> i \<noteq> j \<longrightarrow>
            \<not> (length (elem_values (heap e' (state e' ! i)))
                 = length (elem_values (heap e' (state e' ! j)))
               \<and> (\<forall>k < length (elem_values (heap e' (state e' ! i))).
                     \<bar>elem_values (heap e' (state e' ! i)) ! k
                       - elem_values (heap e' (state e' ! j)) ! k\<bar> \<le> precision))"
    unfolding hp nub_equality_iff by blast
  from sub have len: "length (state e') \<le> length (state e)"
    by (rule list_emb_length)
  from 1 cov cov0 sub hp len n show ?thesis by blast
qed

theorem nub_keeps_no_close_pair_witness:
  "nub dup_engine (Some 0) = (2, dup_engine\<lparr>state := [0, 2]\<rparr>)
   \<and> (0 :: real) = (case Some 0 of None \<Rightarrow> 0 | Some v \<Rightarrow> v)
   \<and> subseq [0, 2] (state dup_engine) \<and> length [0, 2 :: nat] \<le> length (state dup_engine)
   \<and> (\<exists>y \<in> {0, 2}. elem_values (heap dup_engine y) = elem_values (heap dup_engine 3))
   \<and> \<not> (length (elem_values (heap dup_engine 0)) = length (elem_values (heap dup_engine 2))
        \<and> (\<forall>k < length (elem_values (heap dup_engine 0)).
              \<bar>elem_values (heap dup_engine 0) ! k - elem_values (heap dup_engine 2) ! k\<bar> \<le> 0))"
proof -
  have a: "nub dup_engine (Some 0) = (2, dup_engine\<lparr>state := [0, 2]\<rparr>)"
    by (simp add: nub_def dup_engine_def nub_equality_def point_def no_element_def)
  have b: "(0 :: real) = (case Some 0 of None \<Rightarrow> 0 | Some v \<Rightarrow> v)" by simp
  have c: "3 \<in> set (state dup_engine)" by (simp add: dup_engine_def)
  from nub_keeps_no_close_pair[OF a b] c a b show ?thesis
    by (simp add: dup_engine_def point_def no_element_def)
qed

section \<open>Properties of the sort\<close>

lemma mset_js_insert: "mset (js_insert c x ys) = add_mset x (mset ys)"
  by (induction ys) auto

lemma mset_js_sort: "mset (js_sort c xs) = mset xs"
  unfolding js_sort_def by (induction xs) (auto simp: mset_js_insert)

lemma set_js_sort: "set (js_sort c xs) = set xs"
  using mset_js_sort[of c xs] by (metis set_mset_mset)

lemma length_js_sort: "length (js_sort c xs) = length xs"
  using mset_js_sort[of c xs] by (metis size_mset)

lemma distinct_js_sort: "distinct (js_sort c xs) = distinct xs"
  using mset_js_sort[of c xs] by (metis mset_eq_imp_distinct_iff)

lemma js_sort_Nil_iff: "js_sort c xs = [] \<longleftrightarrow> xs = []"
  using length_js_sort[of c xs] by (metis length_0_conv)

lemma sorted_js_insert:
  assumes total: "\<And>a b. a \<in> A \<Longrightarrow> b \<in> A \<Longrightarrow> sort_le c a b \<or> sort_le c b a"
    and trans: "\<And>a b d. a \<in> A \<Longrightarrow> b \<in> A \<Longrightarrow> d \<in> A \<Longrightarrow> sort_le c a b \<Longrightarrow> sort_le c b d
                  \<Longrightarrow> sort_le c a d"
    and "x \<in> A" and "set ys \<subseteq> A" and "sorted_wrt (sort_le c) ys"
  shows "sorted_wrt (sort_le c) (js_insert c x ys)"
  using assms(3-)
proof (induction ys)
  case Nil
  then show ?case by simp
next
  case (Cons y ys)
  show ?case
  proof (cases "sort_le c x y")
    case True
    have "sort_le c x z" if "z \<in> set ys" for z
    proof -
      from Cons.prems that have "sort_le c y z" by auto
      with True show ?thesis using trans[of x y z] Cons.prems that by auto
    qed
    with True Cons.prems show ?thesis by auto
  next
    case False
    then have yx: "sort_le c y x" using total[of x y] Cons.prems by auto
    have "set (js_insert c x ys) = insert x (set ys)"
      using mset_js_insert[of c x ys] by (metis set_mset_add_mset_insert set_mset_mset)
    with False yx Cons show ?thesis by auto
  qed
qed

lemma sorted_js_sort:
  assumes total: "\<And>a b. a \<in> A \<Longrightarrow> b \<in> A \<Longrightarrow> sort_le c a b \<or> sort_le c b a"
    and trans: "\<And>a b d. a \<in> A \<Longrightarrow> b \<in> A \<Longrightarrow> d \<in> A \<Longrightarrow> sort_le c a b \<Longrightarrow> sort_le c b d
                  \<Longrightarrow> sort_le c a d"
    and "set xs \<subseteq> A"
  shows "sorted_wrt (sort_le c) (js_sort c xs)"
  using assms(3)
proof (induction xs)
  case Nil
  then show ?case by (simp add: js_sort_def)
next
  case (Cons x xs)
  then have "sorted_wrt (sort_le c) (js_sort c xs)" by simp
  moreover have "set (js_sort c xs) \<subseteq> A" using Cons.prems by (simp add: set_js_sort)
  moreover have "x \<in> A" using Cons.prems by simp
  ultimately have "sorted_wrt (sort_le c) (js_insert c x (js_sort c xs))"
    using sorted_js_insert[of A c x "js_sort c xs"] total trans by blast
  then show ?case by (simp add: js_sort_def)
qed

lemma js_sort_all_le:
  assumes "\<And>a b. a \<in> set xs \<Longrightarrow> b \<in> set xs \<Longrightarrow> sort_le c a b"
  shows "js_sort c xs = xs"
  using assms
proof (induction xs)
  case Nil
  then show ?case by (simp add: js_sort_def)
next
  case (Cons x xs)
  then have "js_sort c xs = xs" by simp
  then have "js_sort c (x # xs) = js_insert c x xs" by (simp add: js_sort_def)
  also have "\<dots> = x # xs" using Cons.prems by (cases xs) auto
  finally show ?case .
qed

section \<open>Properties of \<open>crowdingDistance\<close>\<close>

subsection \<open>Frame\<close>

lemma set_distance_frame [simp]:
  "evaluation (set_distance r d h x) = evaluation (h x)"
  "pareto (set_distance r d h x) = pareto (h x)"
  "distance_of (set_distance r d h) x = (if x = r then d else distance_of h x)"
  by (simp_all add: set_distance_def distance_of_def)

lemma evaluation_at_cong:
  "evaluation (h1 r) = evaluation (h r) \<Longrightarrow> evaluation_at h1 i r = evaluation_at h i r"
  by (simp add: evaluation_at_def)

lemma objective_compare_cong:
  "(\<And>x. evaluation (h1 x) = evaluation (h x)) \<Longrightarrow> objective_compare h1 i = objective_compare h i"
  by (intro ext) (simp add: objective_compare_def evaluation_at_def)

lemma evaluated_cong:
  "(\<And>x. evaluation (h1 x) = evaluation (h x)) \<Longrightarrow> evaluated P h1 es = evaluated P h es"
  by (simp add: evaluated_def)

lemma evaluated_mset: "mset es1 = mset es \<Longrightarrow> evaluated P h es1 = evaluated P h es"
proof -
  assume "mset es1 = mset es"
  then have "set es1 = set es" by (rule mset_eq_setD)
  then show ?thesis by (simp add: evaluated_def list_all_iff)
qed

lemma evaluated_at:
  "evaluated P h es \<Longrightarrow> r \<in> set es \<Longrightarrow> i < objectives P
     \<Longrightarrow> evaluation_at h i r = Fin (objective_value h i r)"
  by (auto simp: evaluated_def list_all_iff evaluation_at_def objective_value_def
      split: option.splits)

lemma evaluated_not_None:
  "evaluated P h es \<Longrightarrow> \<not> list_ex (\<lambda>r. evaluation (h r) = None) es"
  by (auto simp: evaluated_def list_all_iff list_ex_iff split: option.splits)

lemma crowding_step_frame [simp]:
  "evaluation (crowding_step i es j h x) = evaluation (h x)"
  "pareto (crowding_step i es j h x) = pareto (h x)"
  by (simp_all add: crowding_step_def)

lemma crowding_step_distance:
  "distance_of (crowding_step i es j h) x =
     (if x = es ! j
      then nadd (distance_of h x)
             (nsub (evaluation_at h i (es ! (j + 1))) (evaluation_at h i (es ! (j - 1))))
      else distance_of h x)"
  by (simp add: crowding_step_def)

lemma fold_crowding_step_frame [simp]:
  "evaluation (fold (crowding_step i es) js h x) = evaluation (h x)"
  "pareto (fold (crowding_step i es) js h x) = pareto (h x)"
  by (induction js arbitrary: h) simp_all

subsection \<open>Distances stay numbers or +Infinity\<close>

lemma is_distance_nadd_Fin: "is_distance d \<Longrightarrow> is_distance (nadd d (Fin x))"
  by (cases d) (simp_all add: is_distance_def)

lemma nsub_Fin [simp]: "nsub (Fin a) (Fin b) = Fin (a - b)"
  by (simp add: nsub_def)

lemma nadd_PInf_Fin [simp]: "nadd PInf (Fin x) = PInf"
  by simp

lemma fold_crowding_step_is_distance:
  assumes "evaluated P h es" and "i < objectives P"
    and "\<forall>j \<in> set js. 1 \<le> j \<and> j + 1 < length es"
    and "\<forall>x \<in> set es. is_distance (distance_of h x)"
  shows "\<forall>x \<in> set es. is_distance (distance_of (fold (crowding_step i es) js h) x)"
  using assms
proof (induction js arbitrary: h)
  case Nil
  then show ?case by simp
next
  case (Cons j js)
  let ?h1 = "crowding_step i es j h"
  from Cons.prems have j: "1 \<le> j" "j + 1 < length es" by auto
  then have mem: "es ! (j + 1) \<in> set es" "es ! (j - 1) \<in> set es" "es ! j \<in> set es"
    by (auto intro: nth_mem)
  have ev: "evaluated P ?h1 es"
    using Cons.prems(1) by (simp add: evaluated_def)
  have gap: "nsub (evaluation_at h i (es ! (j + 1))) (evaluation_at h i (es ! (j - 1)))
      = Fin (objective_value h i (es ! (j + 1)) - objective_value h i (es ! (j - 1)))"
    using evaluated_at[OF Cons.prems(1) mem(1) Cons.prems(2)]
      evaluated_at[OF Cons.prems(1) mem(2) Cons.prems(2)] by simp
  have "is_distance (distance_of ?h1 x)" if "x \<in> set es" for x
    using that Cons.prems(4) gap mem(3)
    by (auto simp: crowding_step_distance is_distance_nadd_Fin)
  with Cons.IH[of ?h1] ev Cons.prems show ?case by simp
qed

lemma fold_crowding_step_PInf:
  assumes "evaluated P h es" and "i < objectives P"
    and "\<forall>j \<in> set js. 1 \<le> j \<and> j + 1 < length es"
    and "distance_of h x = PInf"
  shows "distance_of (fold (crowding_step i es) js h) x = PInf"
  using assms
proof (induction js arbitrary: h)
  case Nil
  then show ?case by simp
next
  case (Cons j js)
  let ?h1 = "crowding_step i es j h"
  from Cons.prems have j: "1 \<le> j" "j + 1 < length es" by auto
  then have mem: "es ! (j + 1) \<in> set es" "es ! (j - 1) \<in> set es"
    by (auto intro: nth_mem)
  have ev: "evaluated P ?h1 es"
    using Cons.prems(1) by (simp add: evaluated_def)
  have gap: "nsub (evaluation_at h i (es ! (j + 1))) (evaluation_at h i (es ! (j - 1)))
      = Fin (objective_value h i (es ! (j + 1)) - objective_value h i (es ! (j - 1)))"
    using evaluated_at[OF Cons.prems(1) mem(1) Cons.prems(2)]
      evaluated_at[OF Cons.prems(1) mem(2) Cons.prems(2)] by simp
  have "distance_of ?h1 x = PInf"
    using Cons.prems(4) gap by (auto simp: crowding_step_distance)
  with Cons.IH[of ?h1] ev Cons.prems show ?case by simp
qed

lemma crowding_objective_ok:
  assumes "es \<noteq> []" and "evaluated P h es"
  shows "crowding_objective i (h, es) =
           Inr (crowding_round i h (js_sort (objective_compare h i) es),
                js_sort (objective_compare h i) es)"
  using assms evaluated_not_None[OF assms(2)]
  by (simp add: crowding_objective_def crowding_round_def Let_def js_sort_Nil_iff)

lemma crowding_round_frame [simp]:
  "evaluation (crowding_round i h es x) = evaluation (h x)"
  "pareto (crowding_round i h es x) = pareto (h x)"
  by (simp_all add: crowding_round_def)

lemma crowding_round_is_distance:
  assumes "evaluated P h es" and "i < objectives P" and "es \<noteq> []"
    and "\<forall>x \<in> set es. is_distance (distance_of h x)"
  shows "\<forall>x \<in> set es. is_distance (distance_of (crowding_round i h es) x)"
  unfolding crowding_round_def
proof (rule fold_crowding_step_is_distance[where P = P])
  let ?h2 = "set_distance (es ! (length es - 1)) PInf (set_distance (es ! 0) PInf h)"
  show "evaluated P ?h2 es" using assms(1) by (simp add: evaluated_def)
  show "i < objectives P" by fact
  show "\<forall>j\<in>set [1..<length es - 1]. 1 \<le> j \<and> j + 1 < length es" by auto
  show "\<forall>x\<in>set es. is_distance (distance_of ?h2 x)"
    using assms(4) by (simp add: is_distance_def)
qed

lemma crowding_round_PInf:
  assumes "evaluated P h es" and "i < objectives P"
    and "distance_of h x = PInf \<or> x = es ! 0 \<or> x = es ! (length es - 1)"
  shows "distance_of (crowding_round i h es) x = PInf"
  unfolding crowding_round_def
proof (rule fold_crowding_step_PInf[where P = P])
  let ?h2 = "set_distance (es ! (length es - 1)) PInf (set_distance (es ! 0) PInf h)"
  show "evaluated P ?h2 es" using assms(1) by (simp add: evaluated_def)
  show "i < objectives P" by fact
  show "\<forall>j\<in>set [1..<length es - 1]. 1 \<le> j \<and> j + 1 < length es" by auto
  show "distance_of ?h2 x = PInf" using assms(3) by auto
qed

lemma rankings_cong:
  "(\<And>x. evaluation (h1 x) = evaluation (h x)) \<Longrightarrow> rankings h1 is es = rankings h is es"
  by (induction "is" arbitrary: es) (simp_all add: objective_compare_cong[of h1 h] Let_def)

lemma length_rankings [simp]: "length (rankings h is es) = length is"
  by (induction "is" arbitrary: es) (simp_all add: Let_def)

lemma rankings_mset:
  "k < length is \<Longrightarrow> mset (rankings h is es ! k) = mset es"
proof (induction "is" arbitrary: es k)
  case Nil
  then show ?case by simp
next
  case (Cons i "is")
  show ?case
  proof (cases k)
    case 0
    then show ?thesis by (simp add: Let_def mset_js_sort)
  next
    case (Suc k')
    with Cons.prems have "k' < length is" by simp
    from Cons.IH[OF this, of "js_sort (objective_compare h i) es"] Suc
    show ?thesis by (simp add: Let_def mset_js_sort)
  qed
qed

lemma all_less_Suc_split: "(\<forall>k < Suc n. Q k) \<longleftrightarrow> Q 0 \<and> (\<forall>k < n. Q (Suc k))"
  by (metis less_Suc_eq_0_disj Suc_less_eq zero_less_Suc)

lemma crowding_objectives_ok:
  assumes "es \<noteq> []" and "evaluated P h es" and "\<forall>i \<in> set is. i < objectives P"
    and "\<forall>x \<in> set es. is_distance (distance_of h x)"
  shows "\<exists>h'. crowding_objectives is (h, es) = Inr (h', last (es # rankings h is es))
           \<and> (\<forall>x. evaluation (h' x) = evaluation (h x))
           \<and> (\<forall>x. pareto (h' x) = pareto (h x))
           \<and> (\<forall>x \<in> set es. is_distance (distance_of h' x))
           \<and> (\<forall>x. distance_of h x = PInf \<longrightarrow> distance_of h' x = PInf)
           \<and> (\<forall>k < length is. distance_of h' (hd (rankings h is es ! k)) = PInf
                               \<and> distance_of h' (last (rankings h is es ! k)) = PInf)"
  using assms
proof (induction "is" arbitrary: h es)
  case Nil
  then show ?case by simp
next
  case (Cons i "is")
  let ?R = "js_sort (objective_compare h i) es"
  let ?h1 = "crowding_round i h ?R"
  have i: "i < objectives P" using Cons.prems(3) by simp
  have R: "?R \<noteq> []" "set ?R = set es" using Cons.prems(1) by (simp_all add: js_sort_Nil_iff set_js_sort)
  have evR: "evaluated P h ?R" using Cons.prems(2) evaluated_mset[OF mset_js_sort] by blast
  have step: "crowding_objective i (h, es) = Inr (?h1, ?R)"
    using Cons.prems(1,2) by (rule crowding_objective_ok)
  have ev1: "evaluated P ?h1 ?R" using evR by (simp add: evaluated_def)
  have d1: "\<forall>x \<in> set ?R. is_distance (distance_of ?h1 x)"
    using crowding_round_is_distance[OF evR i R(1)] Cons.prems(4) R(2) by simp
  from Cons.IH[OF R(1) ev1 _ d1] Cons.prems(3)
  obtain h' where h': "crowding_objectives is (?h1, ?R) = Inr (h', last (?R # rankings ?h1 is ?R))"
    "\<forall>x. evaluation (h' x) = evaluation (?h1 x)" "\<forall>x. pareto (h' x) = pareto (?h1 x)"
    "\<forall>x \<in> set ?R. is_distance (distance_of h' x)"
    "\<forall>x. distance_of ?h1 x = PInf \<longrightarrow> distance_of h' x = PInf"
    "\<forall>k < length is. distance_of h' (hd (rankings ?h1 is ?R ! k)) = PInf
                               \<and> distance_of h' (last (rankings ?h1 is ?R ! k)) = PInf"
    by auto
  have rk: "rankings ?h1 is ?R = rankings h is ?R" by (rule rankings_cong) simp
  have ends: "distance_of ?h1 (hd ?R) = PInf" "distance_of ?h1 (last ?R) = PInf"
    using crowding_round_PInf[OF evR i, of _ ] R(1)
    by (simp_all add: hd_conv_nth last_conv_nth)
  have keep: "distance_of ?h1 x = PInf" if "distance_of h x = PInf" for x
    using crowding_round_PInf[OF evR i] that by simp
  have "crowding_objectives (i # is) (h, es) = Inr (h', last (es # rankings h (i # is) es))"
    using step h'(1) rk by (simp add: Let_def)
  moreover have "\<forall>x. evaluation (h' x) = evaluation (h x)" using h'(2) by simp
  moreover have "\<forall>x. pareto (h' x) = pareto (h x)" using h'(3) by simp
  moreover have "\<forall>x \<in> set es. is_distance (distance_of h' x)" using h'(4) R(2) by simp
  moreover have "\<forall>x. distance_of h x = PInf \<longrightarrow> distance_of h' x = PInf"
    using h'(5) keep by blast
  moreover have "\<forall>k < length (i # is). distance_of h' (hd (rankings h (i # is) es ! k)) = PInf
                               \<and> distance_of h' (last (rankings h (i # is) es ! k)) = PInf"
    using h'(5,6) ends rk by (simp add: all_less_Suc_split Let_def)
  ultimately show ?case by blast
qed

subsection \<open>Elements that are not shared\<close>

lemma fold_crowding_step_other:
  "\<forall>j \<in> set js. es ! j \<noteq> x \<Longrightarrow> distance_of (fold (crowding_step i es) js h) x = distance_of h x"
  by (induction js arbitrary: h) (simp_all add: crowding_step_distance)

lemma neighbour_gap_nth:
  "distinct es \<Longrightarrow> 1 \<le> j \<Longrightarrow> Suc j < length es
     \<Longrightarrow> neighbour_gap f es (es ! j) = f (es ! Suc j) - f (es ! (j - 1))"
proof (induction f es "es ! j" arbitrary: j rule: neighbour_gap.induct)
  case (1 f a b c xs)
  show ?case
  proof (cases "j = 1")
    case True
    then show ?thesis by simp
  next
    case False
    with "1.prems" obtain j' where j': "j = Suc j'" "1 \<le> j'" by (cases j) auto
    with "1.prems" have neq: "(a # b # c # xs) ! j \<noteq> b"
      by (auto simp: nth_Cons' in_set_conv_nth split: if_splits)
    have "neighbour_gap f (b # c # xs) ((b # c # xs) ! j')
            = f ((b # c # xs) ! Suc j') - f ((b # c # xs) ! (j' - 1))"
    proof (rule "1.hyps")
      show "(a # b # c # xs) ! j \<noteq> b" by (rule neq)
      show "(a # b # c # xs) ! j = (b # c # xs) ! j'" using j' by simp
      show "distinct (b # c # xs)" using "1.prems" by simp
      show "1 \<le> j'" by (rule j')
      show "Suc j' < length (b # c # xs)" using "1.prems" j' by simp
    qed
    with neq j' show ?thesis by (cases j') simp_all
  qed
qed simp_all

lemma upt_split_at: "a \<le> j \<Longrightarrow> j < m \<Longrightarrow> [a..<m] = [a..<j] @ j # [Suc j..<m]"
  by (metis le_Suc_ex less_imp_le_nat upt_add_eq_append upt_conv_Cons)

lemma crowding_round_interior:
  assumes "distinct es" and "evaluated P h es" and "i < objectives P"
    and "x \<in> set es" and "x \<noteq> hd es" and "x \<noteq> last es"
  shows "distance_of (crowding_round i h es) x
           = nadd (distance_of h x) (Fin (neighbour_gap (objective_value h i) es x))"
proof -
  from assms(4) obtain j where j: "j < length es" "es ! j = x"
    by (auto simp: in_set_conv_nth)
  then have ne: "es \<noteq> []" by auto
  from j assms(5) ne have j0: "1 \<le> j" by (cases j) (auto simp: hd_conv_nth)
  from j assms(6) ne have jm: "j < length es - 1"
    by (cases "j = length es - 1") (auto simp: last_conv_nth)
  let ?m = "length es - 1"
  let ?h2 = "set_distance (es ! ?m) PInf (set_distance (es ! 0) PInf h)"
  let ?ha = "fold (crowding_step i es) [1..<j] ?h2"
  let ?hb = "crowding_step i es j ?ha"
  have split: "[1..<?m] = [1..<j] @ j # [Suc j..<?m]"
    using j0 jm by (rule upt_split_at)
  have other: "es ! j' \<noteq> x" if "j' < length es" "j' \<noteq> j" for j'
    using that j assms(1) by (auto simp: nth_eq_iff_index_eq)
  have d2: "distance_of ?h2 x = distance_of h x"
    using assms(5,6) ne by (simp add: hd_conv_nth last_conv_nth)
  have da: "distance_of ?ha x = distance_of ?h2 x"
  proof (rule fold_crowding_step_other, rule ballI)
    fix j' assume "j' \<in> set [1..<j]"
    then have "j' < length es" "j' \<noteq> j" using j(1) by auto
    then show "es ! j' \<noteq> x" by (rule other)
  qed
  have mem: "es ! (j + 1) \<in> set es" "es ! (j - 1) \<in> set es"
    using j jm by (auto intro: nth_mem)
  have eva: "evaluation_at ?ha i r = evaluation_at h i r" for r
    by (rule evaluation_at_cong) simp
  have gap: "nsub (evaluation_at ?ha i (es ! (j + 1))) (evaluation_at ?ha i (es ! (j - 1)))
      = Fin (objective_value h i (es ! (j + 1)) - objective_value h i (es ! (j - 1)))"
    unfolding eva evaluated_at[OF assms(2) mem(1) assms(3)]
      evaluated_at[OF assms(2) mem(2) assms(3)] by (rule nsub_Fin)
  have ng: "neighbour_gap (objective_value h i) es x
      = objective_value h i (es ! (j + 1)) - objective_value h i (es ! (j - 1))"
    using neighbour_gap_nth[OF assms(1) j0, of "objective_value h i"] jm j by simp
  have db: "distance_of ?hb x
      = nadd (distance_of h x) (Fin (neighbour_gap (objective_value h i) es x))"
    using j(2) gap da d2 ng by (simp add: crowding_step_distance)
  have dc: "distance_of (fold (crowding_step i es) [Suc j..<?m] ?hb) x = distance_of ?hb x"
  proof (rule fold_crowding_step_other, rule ballI)
    fix j' assume "j' \<in> set [Suc j..<?m]"
    then have "j' < length es" "j' \<noteq> j" by auto
    then show "es ! j' \<noteq> x" by (rule other)
  qed
  show ?thesis
    unfolding crowding_round_def split using dc db by simp
qed

lemma nadd_nadd_Fin: "nadd (nadd d (Fin a)) (Fin b) = nadd d (Fin (a + b))"
  by (cases d) simp_all

lemma crowding_objectives_interior:
  assumes "es \<noteq> []" and "distinct es" and "evaluated P h es"
    and "\<forall>i \<in> set is. i < objectives P"
    and "crowding_objectives is (h, es) = Inr (h', es')"
    and "x \<in> set es"
    and "\<forall>k < length is. x \<noteq> hd (rankings h is es ! k) \<and> x \<noteq> last (rankings h is es ! k)"
  shows "distance_of h' x
           = nadd (distance_of h x)
               (Fin (\<Sum>k < length is.
                       neighbour_gap (objective_value h (is ! k)) (rankings h is es ! k) x))"
  using assms
proof (induction "is" arbitrary: h es)
  case Nil
  then show ?case by (cases "distance_of h x") simp_all
next
  case (Cons i "is")
  let ?R = "js_sort (objective_compare h i) es"
  let ?h1 = "crowding_round i h ?R"
  have i: "i < objectives P" using Cons.prems(4) by simp
  have R: "?R \<noteq> []" "set ?R = set es" "distinct ?R"
    using Cons.prems(1,2) by (simp_all add: js_sort_Nil_iff set_js_sort distinct_js_sort)
  have evR: "evaluated P h ?R" using Cons.prems(3) evaluated_mset[OF mset_js_sort] by blast
  have step: "crowding_objective i (h, es) = Inr (?h1, ?R)"
    using Cons.prems(1,3) by (rule crowding_objective_ok)
  have ev1: "evaluated P ?h1 ?R" using evR by (simp add: evaluated_def)
  have rk: "rankings ?h1 is ?R = rankings h is ?R" by (rule rankings_cong) simp
  have ov: "objective_value ?h1 = objective_value h"
    by (intro ext) (simp add: objective_value_def)
  from Cons.prems(7) have x0: "x \<noteq> hd ?R" "x \<noteq> last ?R"
    and xs: "\<forall>k < length is. x \<noteq> hd (rankings h is ?R ! k) \<and> x \<noteq> last (rankings h is ?R ! k)"
    by (simp_all add: all_less_Suc_split Let_def)
  have d1: "distance_of ?h1 x
      = nadd (distance_of h x) (Fin (neighbour_gap (objective_value h i) ?R x))"
    using crowding_round_interior[OF R(3) evR i _ x0] Cons.prems(6) R(2) by simp
  have rest: "crowding_objectives is (?h1, ?R) = Inr (h', es')"
    using Cons.prems(5) step by simp
  have "distance_of h' x
      = nadd (distance_of ?h1 x)
          (Fin (\<Sum>k < length is.
                  neighbour_gap (objective_value ?h1 (is ! k)) (rankings ?h1 is ?R ! k) x))"
  proof (rule Cons.IH[OF R(1) R(3) ev1 _ rest])
    show "\<forall>i\<in>set is. i < objectives P" using Cons.prems(4) by simp
    show "x \<in> set ?R" using Cons.prems(6) R(2) by simp
    show "\<forall>k<length is. x \<noteq> hd (rankings ?h1 is ?R ! k) \<and> x \<noteq> last (rankings ?h1 is ?R ! k)"
      using xs rk by simp
  qed
  then show ?case
    by (simp add: d1 rk ov nadd_nadd_Fin sum.lessThan_Suc_shift Let_def
        del: sum.lessThan_Suc)
qed

lemma fold_reset_distance:
  "distance_of (fold (\<lambda>i h. set_distance (es ! i) (Fin 0) h) js h) x
     = (if x \<in> (\<lambda>j. es ! j) ` set js then Fin 0 else distance_of h x)"
  by (induction js arbitrary: h) auto

lemma fold_reset_frame [simp]:
  "evaluation (fold (\<lambda>i h. set_distance (es ! i) (Fin 0) h) js h x) = evaluation (h x)"
  "pareto (fold (\<lambda>i h. set_distance (es ! i) (Fin 0) h) js h x) = pareto (h x)"
  by (induction js arbitrary: h) simp_all

lemma reset_distance:
  "x \<in> set es \<Longrightarrow>
     distance_of (fold (\<lambda>i h. set_distance (es ! i) (Fin 0) h) [0..<length es] h) x = Fin 0"
  by (auto simp: fold_reset_distance in_set_conv_nth)

lemma crowdingDistance_mh_ok:
  assumes "es \<noteq> []" and "evaluated P h es"
  shows "\<exists>h'. crowdingDistance_mh P h es = Inr h'
           \<and> crowding_objectives [0..<objectives P]
               (fold (\<lambda>i h. set_distance (es ! i) (Fin 0) h) [0..<length es] h, es)
               = Inr (h', last (es # rankings h [0..<objectives P] es))
           \<and> (\<forall>x. evaluation (h' x) = evaluation (h x))
           \<and> (\<forall>x. pareto (h' x) = pareto (h x))
           \<and> (\<forall>x \<in> set es. is_distance (distance_of h' x))
           \<and> (\<forall>k < objectives P.
                 distance_of h' (hd (rankings h [0..<objectives P] es ! k)) = PInf
                 \<and> distance_of h' (last (rankings h [0..<objectives P] es ! k)) = PInf)"
proof -
  let ?h0 = "fold (\<lambda>i h. set_distance (es ! i) (Fin 0) h) [0..<length es] h"
  have ev0: "evaluated P ?h0 es" using assms(2) by (simp add: evaluated_def)
  have d0: "\<forall>x \<in> set es. is_distance (distance_of ?h0 x)"
    by (simp add: reset_distance is_distance_def)
  have rk: "rankings ?h0 [0..<objectives P] es = rankings h [0..<objectives P] es"
    by (rule rankings_cong) simp
  from crowding_objectives_ok[OF assms(1) ev0 _ d0, of "[0..<objectives P]"]
  obtain h' where h': "crowding_objectives [0..<objectives P] (?h0, es)
       = Inr (h', last (es # rankings ?h0 [0..<objectives P] es))"
    "\<forall>x. evaluation (h' x) = evaluation (?h0 x)" "\<forall>x. pareto (h' x) = pareto (?h0 x)"
    "\<forall>x \<in> set es. is_distance (distance_of h' x)"
    "\<forall>k < length [0..<objectives P].
        distance_of h' (hd (rankings ?h0 [0..<objectives P] es ! k)) = PInf
        \<and> distance_of h' (last (rankings ?h0 [0..<objectives P] es ! k)) = PInf"
    by auto
  have "crowdingDistance_mh P h es = Inr h'"
    using h'(1) by (simp add: crowdingDistance_mh_def Let_def)
  with h' rk show ?thesis by simp
qed

lemma crowding_objectives_Nil:
  "crowding_objectives (i # is) (h, []) = Inl TypeError"
  by (simp add: crowding_objective_def js_sort_def)

lemma crowdingDistance_mh_Nil:
  "crowdingDistance_mh P h [] = (if 0 < objectives P then Inl TypeError else Inr h)"
proof (cases "0 < objectives P")
  case False
  then show ?thesis by (simp add: crowdingDistance_mh_def)
next
  case True
  then have "[0..<objectives P] = 0 # [1..<objectives P]" by (simp add: upt_conv_Cons)
  then have "crowding_objectives [0..<objectives P] (h, []) = Inl TypeError"
    by (simp only: crowding_objectives_Nil)
  with True show ?thesis by (simp add: crowdingDistance_mh_def)
qed

text \<open>
  C10. On a list of evaluated elements that is not empty \<open>crowdingDistance\<close> completes and
  leaves every element a crowding distance that is a number or \<open>+Infinity\<close>. On the empty
  list it raises a \<open>TypeError\<close> when the problem has an objective: the first and the last
  position of the ranking copy are written once per objective. With no objective the
  loop body never runs and the empty list comes back.
\<close>

theorem crowdingDistance_needs_an_element:
  "(elements \<noteq> [] \<and> evaluated P h elements \<longrightarrow>
      (\<exists>h'. crowdingDistance_mh P h elements = Inr h'
         \<and> (\<forall>r \<in> set elements. is_distance (distance_of h' r))))
   \<and> (0 < objectives P \<longrightarrow> crowdingDistance_mh P h [] = Inl TypeError)
   \<and> (objectives P = 0 \<longrightarrow> crowdingDistance_mh P h [] = Inr h)"
proof (intro conjI impI)
  assume "elements \<noteq> [] \<and> evaluated P h elements"
  then show "\<exists>h'. crowdingDistance_mh P h elements = Inr h'
         \<and> (\<forall>r \<in> set elements. is_distance (distance_of h' r))"
    using crowdingDistance_mh_ok[of elements P h] by blast
next
  assume "0 < objectives P"
  then show "crowdingDistance_mh P h [] = Inl TypeError" by (simp add: crowdingDistance_mh_Nil)
next
  assume "objectives P = 0"
  then show "crowdingDistance_mh P h [] = Inr h" by (simp add: crowdingDistance_mh_Nil)
qed

subsection \<open>Rankings are sorted\<close>

lemma rankings_nth:
  "k < length is \<Longrightarrow>
     \<exists>prev. mset prev = mset es \<and> rankings h is es ! k = js_sort (objective_compare h (is ! k)) prev"
proof (induction "is" arbitrary: es k)
  case Nil
  then show ?case by simp
next
  case (Cons i "is")
  show ?case
  proof (cases k)
    case 0
    then show ?thesis by (auto simp: Let_def)
  next
    case (Suc k')
    with Cons.prems have "k' < length is" by simp
    from Cons.IH[OF this, of "js_sort (objective_compare h i) es"] Suc
    show ?thesis by (auto simp: Let_def mset_js_sort)
  qed
qed

lemma sort_le_objective:
  assumes "evaluated P h es" and "i < objectives P" and "a \<in> set es" and "b \<in> set es"
  shows "sort_le (objective_compare h i) a b \<longleftrightarrow> objective_value h i a \<le> objective_value h i b"
  using evaluated_at[OF assms(1,3,2)] evaluated_at[OF assms(1,4,2)]
  by (simp add: sort_le_def objective_compare_def)

lemma rankings_sorted:
  assumes "evaluated P h es" and "\<forall>i \<in> set is. i < objectives P" and "k < length is"
  shows "sorted_wrt (\<lambda>a b. objective_value h (is ! k) a \<le> objective_value h (is ! k) b)
           (rankings h is es ! k)"
proof -
  from rankings_nth[OF assms(3), of es h] obtain prev where
    p: "mset prev = mset es" "rankings h is es ! k = js_sort (objective_compare h (is ! k)) prev"
    by auto
  have s: "set prev = set es" using p(1) by (rule mset_eq_setD)
  have i: "is ! k < objectives P" using assms(2,3) by simp
  let ?L = "js_sort (objective_compare h (is ! k)) prev"
  have srt: "sorted_wrt (sort_le (objective_compare h (is ! k))) ?L"
  proof (rule sorted_js_sort[where A = "set es"])
    show "set prev \<subseteq> set es" using s by simp
  next
    fix a b assume "a \<in> set es" "b \<in> set es"
    then show "sort_le (objective_compare h (is ! k)) a b \<or> sort_le (objective_compare h (is ! k)) b a"
      using sort_le_objective[OF assms(1) i, of a b] sort_le_objective[OF assms(1) i, of b a]
      by linarith
  next
    fix a b d assume "a \<in> set es" "b \<in> set es" "d \<in> set es"
      "sort_le (objective_compare h (is ! k)) a b" "sort_le (objective_compare h (is ! k)) b d"
    then show "sort_le (objective_compare h (is ! k)) a d"
      using sort_le_objective[OF assms(1) i, of a b] sort_le_objective[OF assms(1) i, of b d]
        sort_le_objective[OF assms(1) i, of a d] by linarith
  qed
  have sset: "set ?L = set es" using s by (simp add: set_js_sort)
  show ?thesis
    unfolding p(2)
  proof (rule sorted_wrt_mono_rel[OF _ srt])
    fix x y assume "x \<in> set ?L" "y \<in> set ?L" "sort_le (objective_compare h (is ! k)) x y"
    then show "objective_value h (is ! k) x \<le> objective_value h (is ! k) y"
      using sort_le_objective[OF assms(1) i, of x y] sset by simp
  qed
qed

lemma sorted_wrt_hd_least:
  assumes "sorted_wrt R xs" and "\<And>x. R x x" and "x \<in> set xs"
  shows "R (hd xs) x"
  using assms by (cases xs) auto

lemma sorted_wrt_last_greatest:
  assumes "sorted_wrt R xs" and "\<And>x. R x x" and "x \<in> set xs"
  shows "R x (last xs)"
  using assms
proof (induction xs)
  case Nil
  then show ?case by simp
next
  case (Cons a xs)
  then show ?case by (cases xs) auto
qed

subsection \<open>Identical evaluations\<close>

lemma sort_le_same_evaluation:
  assumes "evaluation (h a) = evaluation (h b)"
  shows "sort_le (objective_compare h i) a b"
proof -
  have "evaluation_at h i a = evaluation_at h i b" by (simp add: evaluation_at_def assms)
  then show ?thesis
    by (cases "evaluation_at h i b") (simp_all add: sort_le_def objective_compare_def nsub_def)
qed

lemma rankings_same_evaluation:
  assumes "\<forall>a \<in> set es. \<forall>b \<in> set es. evaluation (h a) = evaluation (h b)" and "k < length is"
  shows "rankings h is es ! k = es"
  using assms(2)
proof (induction "is" arbitrary: k)
  case Nil
  then show ?case by simp
next
  case (Cons i "is")
  have "js_sort (objective_compare h i) es = es"
  proof (rule js_sort_all_le)
    fix a b assume "a \<in> set es" "b \<in> set es"
    with assms(1) have "evaluation (h a) = evaluation (h b)" by blast
    then show "sort_le (objective_compare h i) a b" by (rule sort_le_same_evaluation)
  qed
  with Cons show ?case by (cases k) (simp_all add: Let_def)
qed

lemma neighbour_gap_constant:
  "\<forall>a \<in> set es. \<forall>b \<in> set es. f a = f b \<Longrightarrow> neighbour_gap f es r = 0"
proof (induction f es r rule: neighbour_gap.induct)
  case (1 f a b c xs r)
  have ca: "f c = f a" using "1.prems" by (meson list.set_intros)
  have rest: "\<forall>x \<in> set (b # c # xs). \<forall>y \<in> set (b # c # xs). f x = f y"
    using "1.prems" by (meson list.set_intros(2))
  show ?case
  proof (cases "r = b")
    case True
    then show ?thesis by (simp add: ca)
  next
    case False
    with "1.IH"[OF False rest] show ?thesis by simp
  qed
qed simp_all

text \<open>
  C5. For a list of distinct evaluated elements that is not empty, \<open>crowdingDistance\<close>
  completes, and in the resulting store: for every objective, the ranking by that
  objective is the list sorted in ascending order of the objective's value, and its first
  and last elements, which are minimal and maximal in that objective, have the distance
  \<open>+Infinity\<close>; an element that is at neither end of any ranking has the sum, over the
  objectives, of the value of its next neighbour minus the value of its previous
  neighbour in that objective's ranking; and when all evaluations are identical, every
  element that is neither the first nor the last of the list has the distance \<open>0\<close>.
\<close>

theorem crowdingDistance_extremes_and_interior:
  assumes "elements \<noteq> []" and "distinct elements" and "evaluated P h elements"
  shows "\<exists>h'. crowdingDistance_mh P h elements = Inr h'
     \<and> (\<forall>i < objectives P.
           mset (rankings h [0..<objectives P] elements ! i) = mset elements
           \<and> sorted_wrt (\<lambda>a b. objective_value h i a \<le> objective_value h i b)
               (rankings h [0..<objectives P] elements ! i)
           \<and> (\<forall>r \<in> set elements.
                 objective_value h i (hd (rankings h [0..<objectives P] elements ! i))
                   \<le> objective_value h i r
                 \<and> objective_value h i r
                   \<le> objective_value h i (last (rankings h [0..<objectives P] elements ! i)))
           \<and> distance_of h' (hd (rankings h [0..<objectives P] elements ! i)) = PInf
           \<and> distance_of h' (last (rankings h [0..<objectives P] elements ! i)) = PInf)
     \<and> (\<forall>r \<in> set elements.
           (\<forall>i < objectives P. r \<noteq> hd (rankings h [0..<objectives P] elements ! i)
                              \<and> r \<noteq> last (rankings h [0..<objectives P] elements ! i)) \<longrightarrow>
           distance_of h' r
             = Fin (\<Sum>i < objectives P.
                      neighbour_gap (objective_value h i)
                        (rankings h [0..<objectives P] elements ! i) r))
     \<and> ((\<forall>a \<in> set elements. \<forall>b \<in> set elements. evaluation (h a) = evaluation (h b)) \<longrightarrow>
          (\<forall>r \<in> set elements. r \<noteq> hd elements \<and> r \<noteq> last elements \<longrightarrow>
             distance_of h' r = Fin 0))"
proof -
  let ?n = "objectives P"
  let ?Rs = "rankings h [0..<?n] elements"
  let ?h0 = "fold (\<lambda>i h. set_distance (elements ! i) (Fin 0) h) [0..<length elements] h"
  from crowdingDistance_mh_ok[OF assms(1,3)] obtain h' es' where
    h': "crowdingDistance_mh P h elements = Inr h'"
    and loop: "crowding_objectives [0..<?n] (?h0, elements) = Inr (h', es')"
    and ends: "\<forall>k < ?n. distance_of h' (hd (?Rs ! k)) = PInf \<and> distance_of h' (last (?Rs ! k)) = PInf"
    by blast
  have ev0: "evaluated P ?h0 elements" using assms(3) by (simp add: evaluated_def)
  have rk0: "rankings ?h0 [0..<?n] elements = ?Rs" by (rule rankings_cong) simp
  have ov0: "objective_value ?h0 = objective_value h"
    by (intro ext) (simp add: objective_value_def)
  have ms: "mset (?Rs ! i) = mset elements" if "i < ?n" for i
    using that by (simp add: rankings_mset)
  have st: "set (?Rs ! i) = set elements" if "i < ?n" for i
    using ms[OF that] by (rule mset_eq_setD)
  have srt: "sorted_wrt (\<lambda>a b. objective_value h i a \<le> objective_value h i b) (?Rs ! i)"
    if "i < ?n" for i
    using rankings_sorted[OF assms(3), of "[0..<?n]" i] that by simp
  have low: "objective_value h i (hd (?Rs ! i)) \<le> objective_value h i r"
    if "i < ?n" "r \<in> set elements" for i r
    using sorted_wrt_hd_least[OF srt[OF that(1)], of r] that st by simp
  have high: "objective_value h i r \<le> objective_value h i (last (?Rs ! i))"
    if "i < ?n" "r \<in> set elements" for i r
    using sorted_wrt_last_greatest[OF srt[OF that(1)], of r] that st by simp
  have inner: "distance_of h' r
      = Fin (\<Sum>i < ?n. neighbour_gap (objective_value h i) (?Rs ! i) r)"
    if r: "r \<in> set elements"
      and ne: "\<forall>i < ?n. r \<noteq> hd (?Rs ! i) \<and> r \<noteq> last (?Rs ! i)" for r
  proof -
    have "distance_of h' r
        = nadd (distance_of ?h0 r)
            (Fin (\<Sum>k < length [0..<?n].
                    neighbour_gap (objective_value ?h0 ([0..<?n] ! k))
                      (rankings ?h0 [0..<?n] elements ! k) r))"
      by (rule crowding_objectives_interior[OF assms(1,2) ev0 _ loop r])
        (use ne rk0 in simp_all)
    then show ?thesis by (simp add: reset_distance[OF r] rk0 ov0)
  qed
  have same: "distance_of h' r = Fin 0"
    if eq: "\<forall>a \<in> set elements. \<forall>b \<in> set elements. evaluation (h a) = evaluation (h b)"
      and r: "r \<in> set elements" "r \<noteq> hd elements \<and> r \<noteq> last elements" for r
  proof -
    have R: "?Rs ! i = elements" if "i < ?n" for i
      using rankings_same_evaluation[OF eq, of i "[0..<?n]"] that by simp
    have g: "neighbour_gap (objective_value h i) elements r = 0" for i
    proof (rule neighbour_gap_constant, intro ballI)
      fix a b assume "a \<in> set elements" "b \<in> set elements"
      with eq have "evaluation (h a) = evaluation (h b)" by blast
      then show "objective_value h i a = objective_value h i b"
        by (simp add: objective_value_def)
    qed
    have "distance_of h' r = Fin (\<Sum>i < ?n. neighbour_gap (objective_value h i) (?Rs ! i) r)"
      by (rule inner[OF r(1)]) (use R r(2) in simp)
    then show ?thesis by (simp add: R g)
  qed
  have A: "\<forall>i < objectives P.
           mset (?Rs ! i) = mset elements
           \<and> sorted_wrt (\<lambda>a b. objective_value h i a \<le> objective_value h i b) (?Rs ! i)
           \<and> (\<forall>r \<in> set elements.
                 objective_value h i (hd (?Rs ! i)) \<le> objective_value h i r
                 \<and> objective_value h i r \<le> objective_value h i (last (?Rs ! i)))
           \<and> distance_of h' (hd (?Rs ! i)) = PInf
           \<and> distance_of h' (last (?Rs ! i)) = PInf"
    by (intro allI impI conjI ballI) (simp_all add: ms srt low high ends)
  have B: "\<forall>r \<in> set elements.
           (\<forall>i < objectives P. r \<noteq> hd (?Rs ! i) \<and> r \<noteq> last (?Rs ! i)) \<longrightarrow>
           distance_of h' r
             = Fin (\<Sum>i < objectives P. neighbour_gap (objective_value h i) (?Rs ! i) r)"
    using inner by blast
  have C: "(\<forall>a \<in> set elements. \<forall>b \<in> set elements. evaluation (h a) = evaluation (h b)) \<longrightarrow>
          (\<forall>r \<in> set elements. r \<noteq> hd elements \<and> r \<noteq> last elements \<longrightarrow>
             distance_of h' r = Fin 0)"
    using same by blast
  show ?thesis by (rule exI[of _ h']) (intro conjI h' A B C)
qed

lemma front_rankings:
  "rankings front_store [0..<objectives two_objectives] [0, 1, 2] = [[0, 1, 2], [2, 1, 0]]"
  by (simp add: two_objectives_def line_problem_def front_store_def point_def no_element_def
      upt_rec js_sort_def sort_le_def objective_compare_def evaluation_at_def)

theorem crowdingDistance_extremes_and_interior_witness:
  "[0, 1, 2 :: ref] \<noteq> [] \<and> distinct [0, 1, 2 :: ref]
   \<and> evaluated two_objectives front_store [0, 1, 2]
   \<and> (\<exists>h'. crowdingDistance_mh two_objectives front_store [0, 1, 2] = Inr h'
          \<and> distance_of h' 0 = PInf \<and> distance_of h' 1 = Fin 4 \<and> distance_of h' 2 = PInf)"
proof -
  have a: "[0, 1, 2 :: ref] \<noteq> []" and b: "distinct [0, 1, 2 :: ref]" by simp_all
  have c: "evaluated two_objectives front_store [0, 1, 2]"
    by (simp add: evaluated_def two_objectives_def line_problem_def front_store_def)
  have n: "objectives two_objectives = 2" by (simp add: two_objectives_def line_problem_def)
  have v: "objective_value front_store i r = [real r, 4 - real r] ! i" for i r
    by (simp add: objective_value_def front_store_def)
  from crowdingDistance_extremes_and_interior[OF a b c] obtain h' where
    h': "crowdingDistance_mh two_objectives front_store [0, 1, 2] = Inr h'"
    and ends: "\<forall>i < objectives two_objectives.
        distance_of h' (hd (rankings front_store [0..<objectives two_objectives] [0, 1, 2] ! i)) = PInf
      \<and> distance_of h' (last (rankings front_store [0..<objectives two_objectives] [0, 1, 2] ! i)) = PInf"
    and inner: "\<forall>r \<in> set [0, 1, 2].
        (\<forall>i < objectives two_objectives.
            r \<noteq> hd (rankings front_store [0..<objectives two_objectives] [0, 1, 2] ! i)
          \<and> r \<noteq> last (rankings front_store [0..<objectives two_objectives] [0, 1, 2] ! i)) \<longrightarrow>
        distance_of h' r
          = Fin (\<Sum>i < objectives two_objectives.
                   neighbour_gap (objective_value front_store i)
                     (rankings front_store [0..<objectives two_objectives] [0, 1, 2] ! i) r)"
    by blast
  from ends[unfolded front_rankings, rule_format, of 0]
  have e: "distance_of h' 0 = PInf" "distance_of h' 2 = PInf"
    by (simp_all add: n)
  have "\<forall>i < objectives two_objectives.
            (1::ref) \<noteq> hd (rankings front_store [0..<objectives two_objectives] [0, 1, 2] ! i)
          \<and> 1 \<noteq> last (rankings front_store [0..<objectives two_objectives] [0, 1, 2] ! i)"
    unfolding front_rankings by (simp add: n less_2_cases_iff)
  with inner have "distance_of h' 1
          = Fin (\<Sum>i < objectives two_objectives.
                   neighbour_gap (objective_value front_store i)
                     (rankings front_store [0..<objectives two_objectives] [0, 1, 2] ! i) 1)"
    by simp
  then have i: "distance_of h' 1 = Fin 4"
    unfolding front_rankings by (simp add: n v numeral_2_eq_2)
  from a b c h' e i show ?thesis by blast
qed

theorem crowdingDistance_needs_an_element_witness:
  "[0, 1, 2 :: ref] \<noteq> [] \<and> evaluated two_objectives front_store [0, 1, 2]
   \<and> (\<exists>h'. crowdingDistance_mh two_objectives front_store [0, 1, 2] = Inr h'
          \<and> is_distance (distance_of h' 0) \<and> is_distance (distance_of h' 1)
          \<and> is_distance (distance_of h' 2))
   \<and> 0 < objectives two_objectives
   \<and> crowdingDistance_mh two_objectives front_store [] = Inl TypeError
   \<and> objectives (two_objectives\<lparr>objectives := 0\<rparr>) = 0
   \<and> crowdingDistance_mh (two_objectives\<lparr>objectives := 0\<rparr>) front_store [] = Inr front_store"
proof -
  have a: "[0, 1, 2 :: ref] \<noteq> [] \<and> evaluated two_objectives front_store [0, 1, 2]"
    by (simp add: evaluated_def two_objectives_def line_problem_def front_store_def)
  have b: "0 < objectives two_objectives" by (simp add: two_objectives_def line_problem_def)
  have c: "objectives (two_objectives\<lparr>objectives := 0\<rparr>) = 0" by simp
  from crowdingDistance_needs_an_element[of "[0, 1, 2]" two_objectives front_store] a
  have 1: "\<exists>h'. crowdingDistance_mh two_objectives front_store [0, 1, 2] = Inr h'
          \<and> is_distance (distance_of h' 0) \<and> is_distance (distance_of h' 1)
          \<and> is_distance (distance_of h' 2)"
    by auto
  from crowdingDistance_needs_an_element[of "[]" two_objectives front_store] b
  have 2: "crowdingDistance_mh two_objectives front_store [] = Inl TypeError" by blast
  from crowdingDistance_needs_an_element[of "[]" "two_objectives\<lparr>objectives := 0\<rparr>" front_store] c
  have 3: "crowdingDistance_mh (two_objectives\<lparr>objectives := 0\<rparr>) front_store [] = Inr front_store"
    by blast
  from a b c 1 2 3 show ?thesis by blast
qed

text \<open>
  With no objective the empty list does not make \<open>crowdingDistance\<close> fail: nothing is
  indexed.
\<close>

theorem crowdingDistance_empty_without_objectives:
  "crowdingDistance_mh (two_objectives\<lparr>objectives := 0\<rparr>) front_store [] = Inr front_store"
  by (simp add: crowdingDistance_mh_def)

section \<open>Properties of \<open>paretoAnalysis\<close>\<close>

lemma paretoAnalysis_flat:
  "paretoAnalysis P h es =
     fold (\<lambda>(i1, i2). pareto_pair P es i1 i2) (index_pairs (length es)) (pareto_reset es h)"
proof -
  have "fold (\<lambda>(i1, i2). pareto_pair P es i1 i2) (concat (map (\<lambda>i1. map (Pair i1) (g i1)) xs)) h0
      = fold (\<lambda>i1 h. fold (pareto_pair P es i1) (g i1) h) xs h0" for g xs h0
    by (induction xs arbitrary: h0) (simp_all add: fold_map comp_def)
  then show ?thesis by (simp add: paretoAnalysis_def index_pairs_def Let_def)
qed

lemma distinct_rows:
  "distinct xs \<Longrightarrow> (\<And>i. distinct (g i))
     \<Longrightarrow> distinct (concat (map (\<lambda>i. map (Pair i) (g i)) xs))"
  by (induction xs) (auto simp: distinct_map inj_on_def)

lemma distinct_index_pairs: "distinct (index_pairs len)"
  unfolding index_pairs_def by (rule distinct_rows) simp_all

lemma set_index_pairs: "(i, j) \<in> set (index_pairs len) \<longleftrightarrow> i < j \<and> j < len"
  by (fastforce simp: index_pairs_def)

lemma pareto_reset_frame:
  "pareto (fold (\<lambda>i1 h. h(es ! i1 := (h (es ! i1))\<lparr>pareto := Some \<lparr>dominated = [], dominators = []\<rparr>\<rparr>)) js h x)
     = (if x \<in> (\<lambda>j. es ! j) ` set js then Some \<lparr>dominated = [], dominators = []\<rparr> else pareto (h x))"
  by (induction js arbitrary: h) auto

lemma pareto_reset_lists:
  "x \<in> set es \<Longrightarrow> pareto (pareto_reset es h x) = Some \<lparr>dominated = [], dominators = []\<rparr>"
  by (auto simp: pareto_reset_def pareto_reset_frame in_set_conv_nth)

lemma pareto_pair_defined:
  "pareto (h x) \<noteq> None \<Longrightarrow> pareto (pareto_pair P es i j h x) \<noteq> None"
  by (auto simp: pareto_pair_def Let_def push_dominated_def push_dominators_def)

lemma pareto_pair_dominators:
  assumes "pareto (h (es ! i)) \<noteq> None" and "pareto (h (es ! j)) \<noteq> None"
  shows "set (dominators_of (pareto_pair P es i j h) a)
     = set (dominators_of h a)
       \<union> (if 0 < domination P (h (es ! i)) (h (es ! j)) \<and> a = es ! j then {es ! i} else {})
       \<union> (if domination P (h (es ! i)) (h (es ! j)) < 0 \<and> a = es ! i then {es ! j} else {})"
  using assms
  by (auto simp: pareto_pair_def Let_def push_dominated_def push_dominators_def
      dominators_of_def)

lemma pareto_pair_dominated:
  assumes "pareto (h (es ! i)) \<noteq> None" and "pareto (h (es ! j)) \<noteq> None"
  shows "set (dominated_of (pareto_pair P es i j h) a)
     = set (dominated_of h a)
       \<union> (if 0 < domination P (h (es ! i)) (h (es ! j)) \<and> a = es ! i then {es ! j} else {})
       \<union> (if domination P (h (es ! i)) (h (es ! j)) < 0 \<and> a = es ! j then {es ! i} else {})"
  using assms
  by (auto simp: pareto_pair_def Let_def push_dominated_def push_dominators_def
      dominated_of_def)

lemma pareto_pair_invariant:
  assumes d: "distinct es" and p: "(i, j) \<notin> set ps" "i < j" "j < length es"
    and ps: "\<forall>(i', j') \<in> set ps. i' < j' \<and> j' < length es"
    and inv: "pareto_invariant es ((i, j) # ps) h"
  shows "pareto_invariant es ps (pareto_pair P es i j h)"
proof -
  let ?e1 = "es ! i" and ?e2 = "es ! j"
  let ?d = "domination P (h ?e1) (h ?e2)"
  let ?h1 = "pareto_pair P es i j h"
  have mem: "?e1 \<in> set es" "?e2 \<in> set es" using p by auto
  have neq: "?e1 \<noteq> ?e2" using d p by (simp add: nth_eq_iff_index_eq)
  from inv have def: "\<forall>a \<in> set es. pareto (h a) \<noteq> None"
    and sym: "\<forall>a \<in> set es. \<forall>b \<in> set es.
           b \<in> set (dominators_of h a) \<longleftrightarrow> a \<in> set (dominated_of h b)"
    and fresh: "\<forall>a \<in> set es. \<forall>b \<in> set es. b \<in> set (dominators_of h a) \<longrightarrow>
           a \<noteq> b \<and> a \<notin> set (dominators_of h b)
           \<and> (\<forall>(i', j') \<in> set ((i, j) # ps).
                 \<not> (es ! i' = a \<and> es ! j' = b) \<and> \<not> (es ! i' = b \<and> es ! j' = a))"
    unfolding pareto_invariant_def by blast+
  have dors: "set (dominators_of ?h1 a)
     = set (dominators_of h a)
       \<union> (if 0 < ?d \<and> a = ?e2 then {?e1} else {})
       \<union> (if ?d < 0 \<and> a = ?e1 then {?e2} else {})" for a
    using def mem by (intro pareto_pair_dominators) auto
  have dted: "set (dominated_of ?h1 a)
     = set (dominated_of h a)
       \<union> (if 0 < ?d \<and> a = ?e1 then {?e2} else {})
       \<union> (if ?d < 0 \<and> a = ?e2 then {?e1} else {})" for a
    using def mem by (intro pareto_pair_dominated) auto
  have F1: "?e2 \<notin> set (dominators_of h ?e1)" "?e1 \<notin> set (dominators_of h ?e2)"
    using fresh mem by fastforce+
  have F2: "\<not> (es ! i' = ?e1 \<and> es ! j' = ?e2) \<and> \<not> (es ! i' = ?e2 \<and> es ! j' = ?e1)"
    if "(i', j') \<in> set ps" for i' j'
  proof -
    from that ps have b: "i' < j'" "j' < length es" by auto
    with d p have "es ! i' = ?e1 \<longleftrightarrow> i' = i" "es ! j' = ?e2 \<longleftrightarrow> j' = j"
      "es ! i' = ?e2 \<longleftrightarrow> i' = j" "es ! j' = ?e1 \<longleftrightarrow> j' = i"
      by (simp_all add: nth_eq_iff_index_eq)
    with that p b show ?thesis by auto
  qed
  have 1: "\<forall>a \<in> set es. pareto (?h1 a) \<noteq> None"
    using def by (simp add: pareto_pair_defined)
  have 2: "\<forall>a \<in> set es. \<forall>b \<in> set es.
           b \<in> set (dominators_of ?h1 a) \<longleftrightarrow> a \<in> set (dominated_of ?h1 b)"
    using sym unfolding dors dted by auto
  have 3: "a \<noteq> b \<and> a \<notin> set (dominators_of ?h1 b)
           \<and> (\<forall>(i', j') \<in> set ps. \<not> (es ! i' = a \<and> es ! j' = b) \<and> \<not> (es ! i' = b \<and> es ! j' = a))"
    if ab: "a \<in> set es" "b \<in> set es" and b: "b \<in> set (dominators_of ?h1 a)" for a b
  proof -
    from b consider (old) "b \<in> set (dominators_of h a)"
      | (pos) "0 < ?d" "a = ?e2" "b = ?e1"
      | (neg) "?d < 0" "a = ?e1" "b = ?e2"
      unfolding dors by (auto split: if_splits)
    then show ?thesis
    proof cases
      case old
      with fresh ab have o: "a \<noteq> b" "a \<notin> set (dominators_of h b)"
        "\<forall>(i', j') \<in> set ps. \<not> (es ! i' = a \<and> es ! j' = b) \<and> \<not> (es ! i' = b \<and> es ! j' = a)"
        by fastforce+
      have "a \<notin> set (dominators_of ?h1 b)"
        using o(2) old F1 unfolding dors by (auto split: if_splits)
      with o show ?thesis by blast
    next
      case pos
      have "a \<notin> set (dominators_of ?h1 b)"
        using pos F1 neq unfolding dors by (auto split: if_splits)
      with pos neq F2 show ?thesis by auto
    next
      case neg
      have "a \<notin> set (dominators_of ?h1 b)"
        using neg F1 neq unfolding dors by (auto split: if_splits)
      with neg neq F2 show ?thesis by auto
    qed
  qed
  show ?thesis
    unfolding pareto_invariant_def using 1 2 3 by blast
qed

lemma pareto_pairs_invariant:
  assumes "distinct es" and "distinct ps" and "\<forall>(i, j) \<in> set ps. i < j \<and> j < length es"
    and "pareto_invariant es ps h"
  shows "pareto_invariant es [] (fold (\<lambda>(i1, i2). pareto_pair P es i1 i2) ps h)"
  using assms(2-)
proof (induction ps arbitrary: h)
  case Nil
  then show ?case by simp
next
  case (Cons p ps)
  obtain i j where p: "p = (i, j)" by (cases p)
  have "pareto_invariant es ps (pareto_pair P es i j h)"
    using Cons.prems p by (intro pareto_pair_invariant[OF assms(1)]) auto
  with Cons.IH[of "pareto_pair P es i j h"] Cons.prems p show ?case by simp
qed

lemma pareto_invariant_reset:
  "pareto_invariant es ps (pareto_reset es h)"
  by (simp add: pareto_invariant_def pareto_reset_lists dominators_of_def dominated_of_def)

text \<open>
  C4. After \<open>paretoAnalysis\<close> on a list of distinct elements, for every two elements \<open>a\<close> and
  \<open>b\<close> of the list: \<open>b\<close> is in the dominators of \<open>a\<close> exactly when \<open>a\<close> is in the dominated of
  \<open>b\<close>; \<open>a\<close> is in neither of its own lists; and if \<open>a\<close> is recorded as dominating \<open>b\<close> then
  \<open>b\<close> is not recorded as dominating \<open>a\<close>.
\<close>

theorem paretoAnalysis_symmetric_antisymmetric:
  assumes "distinct elements"
  shows "\<forall>a \<in> set elements. \<forall>b \<in> set elements.
           (b \<in> set (dominators_of (paretoAnalysis P h elements) a)
              \<longleftrightarrow> a \<in> set (dominated_of (paretoAnalysis P h elements) b))
           \<and> a \<notin> set (dominators_of (paretoAnalysis P h elements) a)
           \<and> a \<notin> set (dominated_of (paretoAnalysis P h elements) a)
           \<and> (a \<in> set (dominators_of (paretoAnalysis P h elements) b)
                \<longrightarrow> b \<notin> set (dominators_of (paretoAnalysis P h elements) a))
           \<and> pareto (paretoAnalysis P h elements a) \<noteq> None"
proof -
  have "pareto_invariant elements []
          (fold (\<lambda>(i1, i2). pareto_pair P elements i1 i2) (index_pairs (length elements))
             (pareto_reset elements h))"
    using assms distinct_index_pairs
    by (intro pareto_pairs_invariant pareto_invariant_reset) (auto simp: set_index_pairs)
  then have "pareto_invariant elements [] (paretoAnalysis P h elements)"
    by (simp add: paretoAnalysis_flat)
  then show ?thesis unfolding pareto_invariant_def by fastforce
qed

lemma front_dominators:
  "dominators_of (paretoAnalysis two_objectives front_store [0, 1, 2]) 0 = []"
  "dominators_of (paretoAnalysis two_objectives front_store [0, 1, 2]) 1 = [0]"
  "dominators_of (paretoAnalysis two_objectives front_store [0, 1, 2]) 2 = [0, 1]"
  by (simp_all add: paretoAnalysis_def pareto_reset_def pareto_pair_def push_dominated_def
      push_dominators_def dominators_of_def two_objectives_def line_problem_def
      front_store_def point_def no_element_def upt_rec Let_def)

theorem paretoAnalysis_symmetric_antisymmetric_witness:
  "distinct [0, 1, 2 :: ref]
   \<and> 1 \<in> set (dominators_of (paretoAnalysis two_objectives front_store [0, 1, 2]) 2)
   \<and> 2 \<in> set (dominated_of (paretoAnalysis two_objectives front_store [0, 1, 2]) 1)
   \<and> 2 \<notin> set (dominators_of (paretoAnalysis two_objectives front_store [0, 1, 2]) 1)
   \<and> 2 \<notin> set (dominators_of (paretoAnalysis two_objectives front_store [0, 1, 2]) 2)"
proof -
  have d: "distinct [0, 1, 2 :: ref]" by simp
  have m: "(1 :: ref) \<in> set [0, 1, 2]" "(2 :: ref) \<in> set [0, 1, 2]" by simp_all
  have r: "1 \<in> set (dominators_of (paretoAnalysis two_objectives front_store [0, 1, 2]) 2)"
    unfolding front_dominators by simp
  from paretoAnalysis_symmetric_antisymmetric[OF d, of two_objectives front_store] m r d
  show ?thesis by blast
qed

section \<open>Properties of \<open>nonDominatedSort\<close>\<close>

lemma pareto_pair_evaluation [simp]:
  "evaluation (pareto_pair P es i j h x) = evaluation (h x)"
  by (simp add: pareto_pair_def Let_def push_dominated_def push_dominators_def)

lemma paretoAnalysis_evaluation [simp]:
  "evaluation (paretoAnalysis P h es x) = evaluation (h x)"
proof -
  have a: "evaluation (fold (\<lambda>(i1, i2). pareto_pair P es i1 i2) ps h0 x) = evaluation (h0 x)"
    for ps h0
    by (induction ps arbitrary: h0) (simp_all add: split_def)
  have b: "evaluation (fold (\<lambda>i1 h. h(es ! i1 :=
             (h (es ! i1))\<lparr>pareto := Some \<lparr>dominated = [], dominators = []\<rparr>\<rparr>)) js h0 x)
           = evaluation (h0 x)" for js h0
    by (induction js arbitrary: h0) simp_all
  show ?thesis by (simp add: paretoAnalysis_flat a pareto_reset_def b)
qed

lemma sort_le_nonDominated:
  assumes "is_distance (distance_of h a)" and "is_distance (distance_of h b)"
  shows "sort_le (nonDominated_compare h) a b \<longleftrightarrow> ranked_before h a b"
proof (cases "length (dominators_of h a) = length (dominators_of h b)")
  case True
  with assms show ?thesis
    by (cases "distance_of h a"; cases "distance_of h b")
      (simp_all add: sort_le_def nonDominated_compare_def js_or_def ranked_before_def
        is_distance_def nsub_def)
next
  case False
  then have "real (length (dominators_of h a)) - real (length (dominators_of h b)) \<noteq> 0"
    by simp
  with False show ?thesis
    by (auto simp: sort_le_def nonDominated_compare_def js_or_def ranked_before_def)
qed

lemma ranked_before_total:
  assumes "is_distance (distance_of h a)" and "is_distance (distance_of h b)"
  shows "ranked_before h a b \<or> ranked_before h b a"
  using assms
  by (cases "distance_of h a"; cases "distance_of h b")
    (auto simp: ranked_before_def is_distance_def)

lemma ranked_before_trans:
  assumes "is_distance (distance_of h a)" and "is_distance (distance_of h b)"
    and "is_distance (distance_of h c)"
    and "ranked_before h a b" and "ranked_before h b c"
  shows "ranked_before h a c"
  using assms
  by (cases "distance_of h a"; cases "distance_of h b"; cases "distance_of h c")
    (auto simp: ranked_before_def is_distance_def)

lemma nonDominated_sorted:
  assumes "\<forall>x \<in> set es. is_distance (distance_of h x)"
  shows "sorted_wrt (ranked_before h) (js_sort (nonDominated_compare h) es)"
proof -
  let ?L = "js_sort (nonDominated_compare h) es"
  have srt: "sorted_wrt (sort_le (nonDominated_compare h)) ?L"
  proof (rule sorted_js_sort[where A = "set es"])
    show "set es \<subseteq> set es" by simp
  next
    fix a b assume "a \<in> set es" "b \<in> set es"
    with assms have d: "is_distance (distance_of h a)" "is_distance (distance_of h b)"
      by simp_all
    show "sort_le (nonDominated_compare h) a b \<or> sort_le (nonDominated_compare h) b a"
      using ranked_before_total[OF d] sort_le_nonDominated[OF d] sort_le_nonDominated[OF d(2,1)]
      by blast
  next
    fix a b c assume "a \<in> set es" "b \<in> set es" "c \<in> set es"
      and le: "sort_le (nonDominated_compare h) a b" "sort_le (nonDominated_compare h) b c"
    with assms have d: "is_distance (distance_of h a)" "is_distance (distance_of h b)"
      "is_distance (distance_of h c)" by simp_all
    show "sort_le (nonDominated_compare h) a c"
      using ranked_before_trans[OF d] le sort_le_nonDominated[OF d(1,2)]
        sort_le_nonDominated[OF d(2,3)] sort_le_nonDominated[OF d(1,3)] by blast
  qed
  show ?thesis
  proof (rule sorted_wrt_mono_rel[OF _ srt])
    fix x y assume "x \<in> set ?L" "y \<in> set ?L" "sort_le (nonDominated_compare h) x y"
    then show "ranked_before h x y"
      using sort_le_nonDominated[of h x y] assms by (simp add: set_js_sort)
  qed
qed

text \<open>
  C3. On a list of evaluated elements that is not empty \<open>nonDominatedSort\<close> returns, and
  whenever it returns, the store it returns is the one \<open>crowdingDistance\<close> leaves after
  \<open>paretoAnalysis\<close>, so the crowding distances are those of \<open>crowdingDistance\<close> and the
  dominator counts those that \<open>paretoAnalysis\<close> recorded; the result is a permutation of
  the list in which every element is ranked before all the elements after it: it has
  fewer dominators, or as many and a crowding distance that is not smaller. In particular
  no element is followed by one with strictly fewer dominators.
\<close>

theorem nonDominatedSort_order:
  assumes "evaluated P h elements"
  shows "(elements \<noteq> [] \<longrightarrow> (\<exists>h' s. nonDominatedSort P h elements = Inr (h', s)))
     \<and> (\<forall>h' s. nonDominatedSort P h elements = Inr (h', s) \<longrightarrow>
           crowdingDistance_mh P (paretoAnalysis P h elements) elements = Inr h'
           \<and> mset s = mset elements
           \<and> (\<forall>x. dominators_of h' x = dominators_of (paretoAnalysis P h elements) x)
           \<and> sorted_wrt (ranked_before h') s
           \<and> (\<forall>i j. i < j \<and> j < length s \<longrightarrow>
                 \<not> length (dominators_of h' (s ! j)) < length (dominators_of h' (s ! i))))"
proof (intro conjI impI allI)
  let ?h1 = "paretoAnalysis P h elements"
  have ev1: "evaluated P ?h1 elements" using assms by (simp add: evaluated_def)
  {
    assume ne: "elements \<noteq> []"
    from crowdingDistance_mh_ok[OF ne ev1] obtain h2 where
      "crowdingDistance_mh P ?h1 elements = Inr h2" by blast
    then show "\<exists>h' s. nonDominatedSort P h elements = Inr (h', s)"
      by (simp add: nonDominatedSort_def)
  }
  fix h' s assume r: "nonDominatedSort P h elements = Inr (h', s)"
  then have cd: "crowdingDistance_mh P ?h1 elements = Inr h'"
    and s: "s = js_sort (nonDominated_compare h') elements"
    by (auto simp: nonDominatedSort_def split: sum.splits)
  show "crowdingDistance_mh P ?h1 elements = Inr h'" by (rule cd)
  show "mset s = mset elements" by (simp add: s mset_js_sort)
  have frame: "(\<forall>x. pareto (h' x) = pareto (?h1 x))
      \<and> (\<forall>x \<in> set elements. is_distance (distance_of h' x))"
  proof (cases "elements = []")
    case True
    with cd have "h' = ?h1" by (simp add: crowdingDistance_mh_Nil split: if_splits)
    with True show ?thesis by simp
  next
    case False
    from crowdingDistance_mh_ok[OF False ev1] cd show ?thesis by auto
  qed
  then show "dominators_of h' x = dominators_of ?h1 x" for x
    by (simp add: dominators_of_def)
  from frame have srt: "sorted_wrt (ranked_before h') s"
    unfolding s by (intro nonDominated_sorted) simp
  then show "sorted_wrt (ranked_before h') s" .
  fix i j assume "i < j \<and> j < length s"
  with srt have "ranked_before h' (s ! i) (s ! j)" by (simp add: sorted_wrt_iff_nth_less)
  then show "\<not> length (dominators_of h' (s ! j)) < length (dominators_of h' (s ! i))"
    by (auto simp: ranked_before_def)
qed

lemma front_dominators_420:
  "dominators_of (paretoAnalysis two_objectives front_store [4, 0, 2]) 0 = []"
  "dominators_of (paretoAnalysis two_objectives front_store [4, 0, 2]) 2 = [0]"
  "dominators_of (paretoAnalysis two_objectives front_store [4, 0, 2]) 4 = [0, 2]"
  by (simp_all add: paretoAnalysis_def pareto_reset_def pareto_pair_def push_dominated_def
      push_dominators_def dominators_of_def two_objectives_def line_problem_def
      front_store_def point_def no_element_def upt_rec Let_def)

lemma curve_dominators:
  assumes "x \<in> set [2, 3, 0, 4, 6]"
  shows "dominators_of (paretoAnalysis curve_objectives curve_store [2, 3, 0, 4, 6]) x = []"
proof -
  have "fold (\<lambda>(i1, i2). pareto_pair curve_objectives es i1 i2) ps h = h" for es ps h
    by (induction ps arbitrary: h)
      (simp_all add: split_def pareto_pair_def curve_objectives_def Let_def)
  then have "paretoAnalysis curve_objectives curve_store [2, 3, 0, 4, 6]
      = pareto_reset [2, 3, 0, 4, 6] curve_store"
    by (simp add: paretoAnalysis_flat)
  with assms show ?thesis
    by (simp add: dominators_of_def pareto_reset_lists)
qed

lemma curve_distances:
  assumes "crowdingDistance_mh curve_objectives
     (paretoAnalysis curve_objectives curve_store [2, 3, 0, 4, 6]) [2, 3, 0, 4, 6] = Inr h'"
  shows "distance_of h' 0 = PInf" "distance_of h' 6 = PInf" "distance_of h' 4 = Fin 54"
    "distance_of h' 3 = Fin 24" "distance_of h' 2 = Fin 18"
  using assms
  by (auto simp: crowdingDistance_mh_def crowding_objective_def crowding_step_def
      set_distance_def distance_of_def objective_compare_def evaluation_at_def
      js_sort_def sort_le_def nsub_def curve_objectives_def two_objectives_def
      line_problem_def curve_store_def point_def no_element_def upt_rec Let_def)

theorem nonDominatedSort_order_witness:
  "evaluated two_objectives front_store [4, 0, 2] \<and> [4, 0, 2 :: ref] \<noteq> []
   \<and> evaluated curve_objectives curve_store [2, 3, 0, 4, 6] \<and> [2, 3, 0, 4, 6 :: ref] \<noteq> []
   \<and> (\<exists>h'. nonDominatedSort two_objectives front_store [4, 0, 2] = Inr (h', [0, 2, 4])
          \<and> sorted_wrt (ranked_before h') [0, 2, 4]
          \<and> length (dominators_of h' 0) = 0 \<and> length (dominators_of h' 2) = 1
          \<and> length (dominators_of h' 4) = 2)
   \<and> (\<exists>h'. nonDominatedSort curve_objectives curve_store [2, 3, 0, 4, 6]
             = Inr (h', [0, 6, 4, 3, 2])
          \<and> crowdingDistance_mh curve_objectives
               (paretoAnalysis curve_objectives curve_store [2, 3, 0, 4, 6]) [2, 3, 0, 4, 6]
             = Inr h'
          \<and> sorted_wrt (ranked_before h') [0, 6, 4, 3, 2]
          \<and> map (dominators_of h') [0, 6, 4, 3, 2] = [[], [], [], [], []]
          \<and> map (distance_of h') [0, 6, 4, 3, 2] = [PInf, PInf, Fin 54, Fin 24, Fin 18])"
proof -
  have ev: "evaluated two_objectives front_store [4, 0, 2]"
    by (simp add: evaluated_def two_objectives_def line_problem_def front_store_def)
  have ev2: "evaluated curve_objectives curve_store [2, 3, 0, 4, 6]"
    by (simp add: evaluated_def curve_objectives_def two_objectives_def line_problem_def
        curve_store_def)
  have A: "\<exists>h'. nonDominatedSort two_objectives front_store [4, 0, 2] = Inr (h', [0, 2, 4])
          \<and> sorted_wrt (ranked_before h') [0, 2, 4]
          \<and> length (dominators_of h' 0) = 0 \<and> length (dominators_of h' 2) = 1
          \<and> length (dominators_of h' 4) = 2"
  proof -
    note t = nonDominatedSort_order[OF ev]
    from t obtain h' s where
      r: "nonDominatedSort two_objectives front_store [4, 0, 2] = Inr (h', s)"
      by blast
    with t have d: "\<forall>x. dominators_of h' x
          = dominators_of (paretoAnalysis two_objectives front_store [4, 0, 2]) x"
      and srt: "sorted_wrt (ranked_before h') s"
      by blast+
    from r have s: "s = js_sort (nonDominated_compare h') [4, 0, 2]"
      by (auto simp: nonDominatedSort_def split: sum.splits)
    have "s = [0, 2, 4]"
      unfolding s
      by (simp add: js_sort_def sort_le_def nonDominated_compare_def js_or_def d
          front_dominators_420)
    with r srt d show ?thesis by (simp add: front_dominators_420)
  qed
  have B: "\<exists>h'. nonDominatedSort curve_objectives curve_store [2, 3, 0, 4, 6]
             = Inr (h', [0, 6, 4, 3, 2])
          \<and> crowdingDistance_mh curve_objectives
               (paretoAnalysis curve_objectives curve_store [2, 3, 0, 4, 6]) [2, 3, 0, 4, 6]
             = Inr h'
          \<and> sorted_wrt (ranked_before h') [0, 6, 4, 3, 2]
          \<and> map (dominators_of h') [0, 6, 4, 3, 2] = [[], [], [], [], []]
          \<and> map (distance_of h') [0, 6, 4, 3, 2] = [PInf, PInf, Fin 54, Fin 24, Fin 18]"
  proof -
    note t = nonDominatedSort_order[OF ev2]
    from t obtain h' s where
      r: "nonDominatedSort curve_objectives curve_store [2, 3, 0, 4, 6] = Inr (h', s)"
      by blast
    with t have cd: "crowdingDistance_mh curve_objectives
        (paretoAnalysis curve_objectives curve_store [2, 3, 0, 4, 6]) [2, 3, 0, 4, 6] = Inr h'"
      and d: "\<forall>x. dominators_of h' x
          = dominators_of (paretoAnalysis curve_objectives curve_store [2, 3, 0, 4, 6]) x"
      and srt: "sorted_wrt (ranked_before h') s"
      by blast+
    from d have d0: "\<forall>x \<in> set [2, 3, 0, 4, 6]. dominators_of h' x = []"
      using curve_dominators by simp
    note dist = curve_distances[OF cd]
    from r have s: "s = js_sort (nonDominated_compare h') [2, 3, 0, 4, 6]"
      by (auto simp: nonDominatedSort_def split: sum.splits)
    have "s = [0, 6, 4, 3, 2]"
      unfolding s using d0
      by (simp add: js_sort_def sort_le_def nonDominated_compare_def js_or_def nsub_def dist)
    with r cd srt d0 dist show ?thesis by simp
  qed
  from ev ev2 A B show ?thesis by simp
qed

section \<open>Properties of the particle swarm\<close>

lemma nextVelocity_result:
  assumes "velocity (heap e element) = Some v" and "localBest (heap e element) = Some lBest"
  shows "nextVelocity e element gBest =
     Inr (map (\<lambda>i. v ! i * inertia e
                 + random e (drawn e) (localAcceleration e)
                     * (elem_values (heap e lBest) ! i - elem_values (heap e element) ! i)
                 + random e (Suc (drawn e)) (globalAcceleration e)
                     * (elem_values (heap e gBest) ! i - elem_values (heap e element) ! i))
            [0..<length (elem_values (heap e element))],
          e\<lparr>drawn := drawn e + 2\<rparr>)"
  using assms by (simp add: nextVelocity_def Let_def)

lemma nextElement_result:
  assumes "nextVelocity e element gBest = Inr (vel, e1)"
    and "localBest (heap e element) = Some lBest"
    and "length (elem_values (heap e element)) \<le> length (model (heap e element))"
  shows "\<exists>e2. nextElement P e element gBest = Inr (allocated e, e2)
     \<and> elem_values (heap e2 (allocated e))
         = map (\<lambda>i. clamp (elem_values (heap e element) ! i + vel ! i) 0
                      (real (model (heap e element) ! i) - 1))
             [0..<length (elem_values (heap e element))]
     \<and> evaluation (heap e2 (allocated e))
         = Some (evaluation_fn P (elem_values (heap e2 (allocated e))))
     \<and> velocity (heap e2 (allocated e)) = Some vel
     \<and> (localBest (heap e2 (allocated e)) = Some (allocated e)
         \<or> localBest (heap e2 (allocated e)) = Some lBest)
     \<and> model (heap e2 (allocated e)) = Element_model P
     \<and> (\<forall>x. x \<noteq> allocated e \<longrightarrow> heap e2 x = heap e x)
     \<and> allocated e2 = Suc (allocated e) \<and> drawn e2 = drawn e + 2
     \<and> state e2 = state e \<and> events e2 = events e \<and> logged e2 = logged e
     \<and> globalBest e2 = globalBest e \<and> step e2 = step e \<and> steps e2 = steps e
     \<and> size_mh e2 = size_mh e \<and> random e2 = random e \<and> inertia e2 = inertia e
     \<and> localAcceleration e2 = localAcceleration e
     \<and> globalAcceleration e2 = globalAcceleration e"
proof -
  from assms(1) have e1: "e1 = e\<lparr>drawn := drawn e + 2\<rparr>"
    by (auto simp: nextVelocity_def Let_def split: if_splits option.splits)
  show ?thesis
    using assms
    by (simp add: nextElement_def Let_def e1 alloc_def blank_def)
qed

lemma clamp_range: "lo \<le> hi \<Longrightarrow> lo \<le> clamp v lo hi \<and> clamp v lo hi \<le> hi"
  by (simp add: clamp_def)

lemma clamp_inside: "lo \<le> v \<Longrightarrow> v \<le> hi \<Longrightarrow> clamp v lo hi = v"
  by (simp add: clamp_def)

text \<open>
  C6. For a particle with velocity \<open>v\<close>, position \<open>p\<close> and personal best \<open>lb\<close>, and a global
  best \<open>gb\<close>, all of the same dimension, \<open>nextVelocity\<close> takes exactly two draws from the
  random source, \<open>localCoef\<close> with the maximum \<open>localAcceleration\<close> and \<open>globalCoef\<close> with the
  maximum \<open>globalAcceleration\<close> (each in \<open>[0, max)\<close> when the source keeps to that range),
  and returns in every dimension \<open>i\<close> the value
  \<open>v[i] * inertia + localCoef * (lb[i] - p[i]) + globalCoef * (gb[i] - p[i])\<close> with these same
  two coefficients. \<open>nextElement\<close> takes no further draw and builds a new element whose
  position is \<open>p[i]\<close> plus that velocity, clamped: it lies in \<open>[0, n[i] - 1]\<close> when the
  dimension has at least one value, and is the unclamped sum when that lies in the range.
\<close>

theorem nextVelocity_nextElement_rule:
  assumes "particle_ok (heap e) element gBest"
    and "velocity (heap e element) = Some v" and "localBest (heap e element) = Some lBest"
    and "p = elem_values (heap e element)" and "lb = elem_values (heap e lBest)"
    and "gb = elem_values (heap e gBest)" and "n = model (heap e element)"
    and "localCoef = random e (drawn e) (localAcceleration e)"
    and "globalCoef = random e (Suc (drawn e)) (globalAcceleration e)"
  shows "\<exists>vel e2.
       nextVelocity e element gBest = Inr (vel, e\<lparr>drawn := drawn e + 2\<rparr>)
     \<and> length vel = length p
     \<and> (\<forall>i < length p.
           vel ! i = v ! i * inertia e + localCoef * (lb ! i - p ! i) + globalCoef * (gb ! i - p ! i))
     \<and> ((\<forall>k m. 0 < m \<longrightarrow> 0 \<le> random e k m \<and> random e k m < m)
          \<and> 0 < localAcceleration e \<and> 0 < globalAcceleration e \<longrightarrow>
          0 \<le> localCoef \<and> localCoef < localAcceleration e
          \<and> 0 \<le> globalCoef \<and> globalCoef < globalAcceleration e)
     \<and> nextElement P e element gBest = Inr (allocated e, e2)
     \<and> drawn e2 = drawn e + 2
     \<and> velocity (heap e2 (allocated e)) = Some vel
     \<and> length (elem_values (heap e2 (allocated e))) = length p
     \<and> (\<forall>i < length p.
           elem_values (heap e2 (allocated e)) ! i = clamp (p ! i + vel ! i) 0 (real (n ! i) - 1)
           \<and> (1 \<le> n ! i \<longrightarrow> 0 \<le> elem_values (heap e2 (allocated e)) ! i
                              \<and> elem_values (heap e2 (allocated e)) ! i \<le> real (n ! i) - 1)
           \<and> (0 \<le> p ! i + vel ! i \<and> p ! i + vel ! i \<le> real (n ! i) - 1 \<longrightarrow>
                elem_values (heap e2 (allocated e)) ! i = p ! i + vel ! i))"
proof -
  let ?vel = "map (\<lambda>i. v ! i * inertia e + localCoef * (lb ! i - p ! i)
                        + globalCoef * (gb ! i - p ! i)) [0..<length p]"
  have nv: "nextVelocity e element gBest = Inr (?vel, e\<lparr>drawn := drawn e + 2\<rparr>)"
    using nextVelocity_result[OF assms(2,3), of gBest] assms(4-) by simp
  have len: "length p \<le> length n"
    using assms(1,4,7) by (simp add: particle_ok_def)
  from nextElement_result[OF nv assms(3), of P] len assms(4,7)
  obtain e2 where e2: "nextElement P e element gBest = Inr (allocated e, e2)"
    "elem_values (heap e2 (allocated e))
       = map (\<lambda>i. clamp (p ! i + ?vel ! i) 0 (real (n ! i) - 1)) [0..<length p]"
    "velocity (heap e2 (allocated e)) = Some ?vel" "drawn e2 = drawn e + 2"
    by auto
  have coef: "(\<forall>k m. 0 < m \<longrightarrow> 0 \<le> random e k m \<and> random e k m < m)
          \<and> 0 < localAcceleration e \<and> 0 < globalAcceleration e \<longrightarrow>
          0 \<le> localCoef \<and> localCoef < localAcceleration e
          \<and> 0 \<le> globalCoef \<and> globalCoef < globalAcceleration e"
    using assms(8,9) by simp
  have pos: "elem_values (heap e2 (allocated e)) ! i = clamp (p ! i + ?vel ! i) 0 (real (n ! i) - 1)
           \<and> (1 \<le> n ! i \<longrightarrow> 0 \<le> elem_values (heap e2 (allocated e)) ! i
                              \<and> elem_values (heap e2 (allocated e)) ! i \<le> real (n ! i) - 1)
           \<and> (0 \<le> p ! i + ?vel ! i \<and> p ! i + ?vel ! i \<le> real (n ! i) - 1 \<longrightarrow>
                elem_values (heap e2 (allocated e)) ! i = p ! i + ?vel ! i)"
    if "i < length p" for i
  proof -
    have v: "elem_values (heap e2 (allocated e)) ! i
        = clamp (p ! i + ?vel ! i) 0 (real (n ! i) - 1)"
      using that by (simp add: e2(2))
    have r: "1 \<le> n ! i \<Longrightarrow> 0 \<le> clamp (p ! i + ?vel ! i) 0 (real (n ! i) - 1)
        \<and> clamp (p ! i + ?vel ! i) 0 (real (n ! i) - 1) \<le> real (n ! i) - 1"
      by (intro clamp_range) simp
    have s: "0 \<le> p ! i + ?vel ! i \<and> p ! i + ?vel ! i \<le> real (n ! i) - 1
        \<Longrightarrow> clamp (p ! i + ?vel ! i) 0 (real (n ! i) - 1) = p ! i + ?vel ! i"
      by (intro clamp_inside) simp_all
    from v r s show ?thesis by presburger
  qed
  show ?thesis
    apply (rule exI[of _ ?vel], rule exI[of _ e2])
    apply (intro conjI nv coef e2(1) e2(3) e2(4))
       apply simp
      apply simp
     apply (simp add: e2(2))
    using pos apply blast
    done
qed

theorem nextVelocity_nextElement_rule_witness:
  "particle_ok (heap swarm_engine) 2 4
   \<and> velocity (heap swarm_engine 2) = Some [1] \<and> localBest (heap swarm_engine 2) = Some 2
   \<and> (\<exists>e2. nextVelocity swarm_engine 2 4 = Inr ([13 / 10], swarm_engine\<lparr>drawn := 2\<rparr>)
          \<and> nextElement line_problem swarm_engine 2 4 = Inr (5, e2)
          \<and> elem_values (heap e2 5) = [33 / 10] \<and> velocity (heap e2 5) = Some [13 / 10])"
proof -
  have a: "particle_ok (heap swarm_engine) 2 4"
    and b: "velocity (heap swarm_engine 2) = Some [1]"
    and c: "localBest (heap swarm_engine 2) = Some 2"
    by (simp_all add: particle_ok_def swarm_engine_def swarm_store_def point_def no_element_def)
  from nextVelocity_nextElement_rule[OF a b c refl refl refl refl refl refl, of line_problem]
  obtain vel e2 where r:
    "nextVelocity swarm_engine 2 4 = Inr (vel, swarm_engine\<lparr>drawn := drawn swarm_engine + 2\<rparr>)"
    "nextElement line_problem swarm_engine 2 4 = Inr (allocated swarm_engine, e2)"
    "velocity (heap e2 (allocated swarm_engine)) = Some vel"
    "length vel = length (elem_values (heap swarm_engine 2))"
    "length (elem_values (heap e2 (allocated swarm_engine))) = length (elem_values (heap swarm_engine 2))"
    "\<forall>i < length (elem_values (heap swarm_engine 2)).
           vel ! i = [1] ! i * inertia swarm_engine
             + random swarm_engine (drawn swarm_engine) (localAcceleration swarm_engine)
                 * (elem_values (heap swarm_engine 2) ! i - elem_values (heap swarm_engine 2) ! i)
             + random swarm_engine (Suc (drawn swarm_engine)) (globalAcceleration swarm_engine)
                 * (elem_values (heap swarm_engine 4) ! i - elem_values (heap swarm_engine 2) ! i)"
    "\<forall>i < length (elem_values (heap swarm_engine 2)).
           elem_values (heap e2 (allocated swarm_engine)) ! i
             = clamp (elem_values (heap swarm_engine 2) ! i + vel ! i) 0
                 (real (model (heap swarm_engine 2) ! i) - 1)"
    by blast
  have s: "elem_values (heap swarm_engine 2) = [2]" "elem_values (heap swarm_engine 4) = [4]"
    "model (heap swarm_engine 2) = [10]" "allocated swarm_engine = 5" "drawn swarm_engine = 0"
    "inertia swarm_engine = 1" "localAcceleration swarm_engine = 1 / 2"
    "globalAcceleration swarm_engine = 3 / 10" "random swarm_engine = (\<lambda>k m. m / 2)"
    by (simp_all add: swarm_engine_def swarm_store_def four_engine_def point_def no_element_def)
  from r(4,6) have vel: "vel = [13 / 10]"
    by (cases vel) (simp_all add: s)
  from r(5,7) have pos: "elem_values (heap e2 5) = [33 / 10]"
    by (cases "elem_values (heap e2 5)") (simp_all add: s vel clamp_def)
  from a b c r(1,2,3) vel pos show ?thesis by (simp add: s)
qed

subsection \<open>The shared sort\<close>

lemma sort_mh_mset: "sort_mh P h els = Inr (h', s) \<Longrightarrow> mset s = mset els"
  by (auto simp: sort_mh_def multiObjectiveSort_def nonDominatedSort_def mset_js_sort
      split: if_splits sum.splits)

lemma paretoAnalysis_defined:
  "x \<in> set es \<Longrightarrow> pareto (paretoAnalysis P h es x) \<noteq> None"
proof -
  have a: "pareto (h0 x) \<noteq> None
      \<Longrightarrow> pareto (fold (\<lambda>(i1, i2). pareto_pair P es i1 i2) ps h0 x) \<noteq> None" for ps h0
  proof (induction ps arbitrary: h0)
    case Nil
    then show ?case by simp
  next
    case (Cons q ps)
    from Cons.prems have "pareto (pareto_pair P es (fst q) (snd q) h0 x) \<noteq> None"
      by (rule pareto_pair_defined)
    then show ?case using Cons.IH[of "pareto_pair P es (fst q) (snd q) h0"]
      by (simp add: split_def)
  qed
  assume "x \<in> set es"
  then show ?thesis by (simp add: paretoAnalysis_flat a pareto_reset_lists)
qed

lemma sort_mh_ok:
  assumes "els \<noteq> []" and "evaluated P h els"
  shows "\<exists>h' s. sort_mh P h els = Inr (h', s) \<and> mset s = mset els
           \<and> (\<forall>x. evaluation (h' x) = evaluation (h x))
           \<and> (1 < objectives P \<longrightarrow> (\<forall>x \<in> set els. pareto (h' x) \<noteq> None))"
proof (cases "1 < objectives P")
  case False
  then show ?thesis by (simp add: sort_mh_def mset_js_sort)
next
  case True
  let ?h1 = "paretoAnalysis P h els"
  have ev1: "evaluated P ?h1 els" using assms(2) by (simp add: evaluated_def)
  from crowdingDistance_mh_ok[OF assms(1) ev1] obtain h2 where
    h2: "crowdingDistance_mh P ?h1 els = Inr h2" "\<forall>x. evaluation (h2 x) = evaluation (?h1 x)"
    "\<forall>x. pareto (h2 x) = pareto (?h1 x)" by blast
  then have "sort_mh P h els = Inr (h2, js_sort (nonDominated_compare h2) els)"
    using True by (simp add: sort_mh_def multiObjectiveSort_def nonDominatedSort_def)
  moreover have "\<forall>x \<in> set els. pareto (h2 x) \<noteq> None"
    using h2(3) by (simp add: paretoAnalysis_defined)
  ultimately show ?thesis using h2(2) by (simp add: mset_js_sort)
qed

lemma ranks_only_refl [simp]: "ranks_only A h h"
  by (simp add: ranks_only_def)

lemma ranks_only_trans: "ranks_only A h h1 \<Longrightarrow> ranks_only A h1 h2 \<Longrightarrow> ranks_only A h h2"
  by (simp add: ranks_only_def)

lemma ranks_only_fold:
  assumes "\<And>j h. j \<in> set js \<Longrightarrow> ranks_only A h (g j h)"
  shows "ranks_only A h (fold g js h)"
  using assms
proof (induction js arbitrary: h)
  case Nil
  then show ?case by simp
next
  case (Cons j js)
  have a: "ranks_only A h (g j h)" using Cons.prems by simp
  have b: "ranks_only A (g j h) (fold g js (g j h))"
    by (rule Cons.IH) (simp add: Cons.prems)
  from ranks_only_trans[OF a b] show ?case by simp
qed

lemma ranks_only_set_distance: "r \<in> A \<Longrightarrow> ranks_only A h (set_distance r d h)"
  by (simp add: ranks_only_def set_distance_def unranked_def)

lemma ranks_only_crowding_step: "es ! j \<in> A \<Longrightarrow> ranks_only A h (crowding_step i es j h)"
  by (simp add: crowding_step_def ranks_only_set_distance)

lemma ranks_only_push:
  "r \<in> A \<Longrightarrow> ranks_only A h (push_dominated r x h)"
  "r \<in> A \<Longrightarrow> ranks_only A h (push_dominators r x h)"
  by (simp_all add: ranks_only_def push_dominated_def push_dominators_def unranked_def)

lemma ranks_only_pareto_pair:
  assumes "es ! i \<in> A" and "es ! j \<in> A"
  shows "ranks_only A h (pareto_pair P es i j h)"
  using assms
  by (auto simp: pareto_pair_def Let_def intro: ranks_only_trans ranks_only_push)

lemma ranks_only_paretoAnalysis: "ranks_only (set es) h (paretoAnalysis P h es)"
proof -
  have a: "ranks_only (set es) h (pareto_reset es h)"
    unfolding pareto_reset_def
    by (rule ranks_only_fold) (simp add: ranks_only_def unranked_def)
  have b: "ranks_only (set es) (pareto_reset es h)
     (fold (\<lambda>(i1, i2). pareto_pair P es i1 i2) (index_pairs (length es)) (pareto_reset es h))"
  proof (rule ranks_only_fold)
    fix q h0 assume "q \<in> set (index_pairs (length es))"
    then have "fst q < snd q \<and> snd q < length es"
      using set_index_pairs[of "fst q" "snd q" "length es"] by simp
    then show "ranks_only (set es) h0 ((\<lambda>(i1, i2). pareto_pair P es i1 i2) q h0)"
      by (simp add: split_def ranks_only_pareto_pair)
  qed
  from ranks_only_trans[OF a b] show ?thesis by (simp add: paretoAnalysis_flat)
qed

lemma ranks_only_crowding_objective:
  assumes "crowding_objective i (h, es) = Inr (h', es')"
  shows "ranks_only (set es) h h' \<and> set es' = set es"
proof -
  let ?R = "js_sort (objective_compare h i) es"
  from assms have R: "?R \<noteq> []" and es': "es' = ?R"
    and h': "h' = fold (crowding_step i ?R) [1..<length ?R - 1]
        (set_distance (?R ! (length ?R - 1)) PInf (set_distance (?R ! 0) PInf h))"
    by (auto simp: crowding_objective_def Let_def split: if_splits)
  have S: "set ?R = set es" by (rule set_js_sort)
  have m: "?R ! j \<in> set es" if "j < length ?R" for j
    using that S nth_mem by blast
  have a: "ranks_only (set es) h (set_distance (?R ! 0) PInf h)"
    using R by (intro ranks_only_set_distance m) simp
  have b: "ranks_only (set es) (set_distance (?R ! 0) PInf h)
      (set_distance (?R ! (length ?R - 1)) PInf (set_distance (?R ! 0) PInf h))"
    using R by (intro ranks_only_set_distance m) simp
  have c: "ranks_only (set es)
      (set_distance (?R ! (length ?R - 1)) PInf (set_distance (?R ! 0) PInf h)) h'"
    unfolding h'
  proof (rule ranks_only_fold)
    fix j h0 assume "j \<in> set [1..<length ?R - 1]"
    then have "j < length ?R - 1" by simp
    then have "j < length ?R" by arith
    then show "ranks_only (set es) h0 (crowding_step i ?R j h0)"
      by (intro ranks_only_crowding_step m)
  qed
  from ranks_only_trans[OF ranks_only_trans[OF a b] c] es' S show ?thesis by simp
qed

lemma ranks_only_crowding_objectives:
  assumes "crowding_objectives is (h, es) = Inr (h', es')"
  shows "ranks_only (set es) h h'"
  using assms
proof (induction "is" arbitrary: h es)
  case Nil
  then show ?case by simp
next
  case (Cons i "is")
  from Cons.prems obtain h1 es1 where
    a: "crowding_objective i (h, es) = Inr (h1, es1)"
    and b: "crowding_objectives is (h1, es1) = Inr (h', es')"
    by (auto split: sum.splits)
  note fa = ranks_only_crowding_objective[OF a]
  from Cons.IH[OF b] fa have "ranks_only (set es) h1 h'" by simp
  with fa show ?case by (blast intro: ranks_only_trans)
qed

lemma ranks_only_crowdingDistance:
  assumes "crowdingDistance_mh P h es = Inr h'"
  shows "ranks_only (set es) h h'"
proof -
  let ?h0 = "fold (\<lambda>i h. set_distance (es ! i) (Fin 0) h) [0..<length es] h"
  from assms obtain es' where
    a: "crowding_objectives [0..<objectives P] (?h0, es) = Inr (h', es')"
    by (auto simp: crowdingDistance_mh_def Let_def split: sum.splits)
  have "ranks_only (set es) h ?h0"
    by (rule ranks_only_fold) (simp add: ranks_only_set_distance)
  with ranks_only_crowding_objectives[OF a] show ?thesis by (blast intro: ranks_only_trans)
qed

lemma ranks_only_sort_mh:
  assumes "sort_mh P h els = Inr (h', s)"
  shows "ranks_only (set els) h h'"
proof (cases "1 < objectives P")
  case False
  with assms show ?thesis by (simp add: sort_mh_def)
next
  case True
  with assms have "crowdingDistance_mh P (paretoAnalysis P h els) els = Inr h'"
    by (auto simp: sort_mh_def multiObjectiveSort_def nonDominatedSort_def split: sum.splits)
  from ranks_only_crowdingDistance[OF this] ranks_only_paretoAnalysis[of els h P]
  show ?thesis by (blast intro: ranks_only_trans)
qed

subsection \<open>The new elements of the swarm\<close>

lemma nextElement_frame:
  assumes "nextElement P e element gBest = Inr (r, e2)"
  shows "r = allocated e \<and> allocated e2 = Suc (allocated e)
     \<and> (\<forall>x. x \<noteq> allocated e \<longrightarrow> heap e2 x = heap e x)
     \<and> evaluation (heap e2 r) = Some (evaluation_fn P (elem_values (heap e2 r)))
     \<and> state e2 = state e \<and> events e2 = events e \<and> logged e2 = logged e
     \<and> globalBest e2 = globalBest e \<and> step e2 = step e \<and> steps e2 = steps e
     \<and> size_mh e2 = size_mh e"
proof -
  from assms obtain vel e1 where nv: "nextVelocity e element gBest = Inr (vel, e1)"
    by (auto simp: nextElement_def split: sum.splits)
  with assms obtain lBest where lb: "localBest (heap e element) = Some lBest"
    and len: "length (elem_values (heap e element)) \<le> length (model (heap e element))"
    by (auto simp: nextElement_def nextVelocity_def Let_def split: if_splits option.splits)
  from nextElement_result[OF nv lb len, of P] assms show ?thesis by auto
qed

lemma nextElements_frame:
  assumes "nextElements P gBest els e = Inr (rs, e1)"
  shows "rs = [allocated e..<allocated e + length els]
     \<and> allocated e1 = allocated e + length els
     \<and> (\<forall>x < allocated e. heap e1 x = heap e x)
     \<and> (\<forall>r \<in> set rs. evaluation (heap e1 r) = Some (evaluation_fn P (elem_values (heap e1 r))))
     \<and> state e1 = state e \<and> events e1 = events e \<and> logged e1 = logged e
     \<and> globalBest e1 = globalBest e \<and> step e1 = step e \<and> steps e1 = steps e
     \<and> size_mh e1 = size_mh e"
  using assms
proof (induction els arbitrary: e rs)
  case Nil
  then show ?case by simp
next
  case (Cons el els)
  from Cons.prems obtain r ea rs' where
    a: "nextElement P e el gBest = Inr (r, ea)"
    and b: "nextElements P gBest els ea = Inr (rs', e1)" and rs: "rs = r # rs'"
    by (auto split: sum.splits)
  note fa = nextElement_frame[OF a]
  note fb = Cons.IH[OF b]
  have r: "r = allocated e" using fa by simp
  have rs': "rs' = [Suc (allocated e)..<allocated e + length (el # els)]" using fa fb by simp
  have "[allocated e..<allocated e + length (el # els)]
      = allocated e # [Suc (allocated e)..<allocated e + length (el # els)]"
    by (rule upt_conv_Cons) simp
  then have "rs = [allocated e..<allocated e + length (el # els)]"
    unfolding rs r rs' by (rule sym)
  moreover have "\<forall>x < allocated e. heap e1 x = heap e x" using fa fb by simp
  moreover have "evaluation (heap e1 x) = Some (evaluation_fn P (elem_values (heap e1 x)))"
    if "x \<in> set rs" for x
  proof (cases "x = r")
    case True
    with fa fb have "heap e1 x = heap ea x" by simp
    with fa True show ?thesis by auto
  next
    case False
    with that rs fb show ?thesis by simp
  qed
  ultimately show ?case using fa fb by simp
qed

lemma nextElement_ok:
  assumes "velocity (heap e el) \<noteq> None" and "localBest (heap e el) \<noteq> None"
    and "length (elem_values (heap e el)) \<le> length (model (heap e el))"
  shows "\<exists>r e2. nextElement P e el gBest = Inr (r, e2)"
proof -
  from assms obtain v lBest where v: "velocity (heap e el) = Some v"
    and lb: "localBest (heap e el) = Some lBest" by auto
  from nextElement_result[OF nextVelocity_result[OF v lb, of gBest] lb assms(3), of P]
  show ?thesis by blast
qed

lemma nextElements_ok:
  assumes "\<forall>r \<in> set els. r < allocated e \<and> velocity (heap e r) \<noteq> None
             \<and> localBest (heap e r) \<noteq> None
             \<and> length (elem_values (heap e r)) \<le> length (model (heap e r))"
  shows "\<exists>rs e1. nextElements P gBest els e = Inr (rs, e1)"
  using assms
proof (induction els arbitrary: e)
  case Nil
  then show ?case by simp
next
  case (Cons el els)
  from Cons.prems nextElement_ok[of e el P gBest]
  obtain r ea where a: "nextElement P e el gBest = Inr (r, ea)" by auto
  note fa = nextElement_frame[OF a]
  have "\<forall>r \<in> set els. r < allocated ea \<and> velocity (heap ea r) \<noteq> None
             \<and> localBest (heap ea r) \<noteq> None
             \<and> length (elem_values (heap ea r)) \<le> length (model (heap ea r))"
    using Cons.prems fa by auto
  from Cons.IH[OF this] obtain rs e1 where "nextElements P gBest els ea = Inr (rs, e1)"
    by blast
  with a show ?case by simp
qed

lemma nextElement_frame_swarm:
  assumes "nextElement P e element gBest = Inr (r, e2)"
  shows "drawn e2 = drawn e + 2 \<and> random e2 = random e \<and> inertia e2 = inertia e
     \<and> localAcceleration e2 = localAcceleration e
     \<and> globalAcceleration e2 = globalAcceleration e
     \<and> unranked (heap e2 r) = heap e2 r"
  using assms
  by (auto simp: nextElement_def nextVelocity_def Let_def alloc_def blank_def unranked_def
      split: sum.splits if_splits option.splits)

lemma nextVelocity_local:
  assumes "nextVelocity ea el gBest = Inr (vel, ea1)"
    and "drawn eb = drawn ea" and "random eb = random ea" and "inertia eb = inertia ea"
    and "localAcceleration eb = localAcceleration ea"
    and "globalAcceleration eb = globalAcceleration ea"
    and "heap eb el = heap ea el" and "heap eb gBest = heap ea gBest"
    and "\<And>l. localBest (heap ea el) = Some l \<Longrightarrow> heap eb l = heap ea l"
  shows "nextVelocity eb el gBest = Inr (vel, eb\<lparr>drawn := drawn eb + 2\<rparr>)"
  using assms
  by (auto simp: nextVelocity_def Let_def split: if_splits option.splits)

lemma nextElement_local:
  assumes "nextElement P ea el gBest = Inr (r, ea2)"
    and "allocated eb = allocated ea"
    and "drawn eb = drawn ea" and "random eb = random ea" and "inertia eb = inertia ea"
    and "localAcceleration eb = localAcceleration ea"
    and "globalAcceleration eb = globalAcceleration ea"
    and "heap eb el = heap ea el" and "heap eb gBest = heap ea gBest"
    and "\<And>l. localBest (heap ea el) = Some l \<Longrightarrow> heap eb l = heap ea l"
  shows "\<exists>eb2. nextElement P eb el gBest = Inr (r, eb2) \<and> heap eb2 r = heap ea2 r"
proof -
  from assms(1) obtain vel ea1 where nv: "nextVelocity ea el gBest = Inr (vel, ea1)"
    by (auto simp: nextElement_def split: sum.splits)
  then have ea1: "ea1 = ea\<lparr>drawn := drawn ea + 2\<rparr>"
    by (auto simp: nextVelocity_def Let_def split: if_splits option.splits)
  from assms(1) nv obtain lBest where lb: "localBest (heap ea el) = Some lBest"
    and len: "length (elem_values (heap ea el)) \<le> length (model (heap ea el))"
    by (auto simp: nextElement_def nextVelocity_def Let_def split: if_splits option.splits)
  have nvb: "nextVelocity eb el gBest = Inr (vel, eb\<lparr>drawn := drawn eb + 2\<rparr>)"
    using nv assms(3-) by (rule nextVelocity_local)
  have hl: "heap eb lBest = heap ea lBest" using assms(10) lb by simp
  show ?thesis
    using assms(1) nv nvb lb len hl assms(2) assms(8)
    by (auto simp: nextElement_def Let_def alloc_def ea1)
qed

lemma nextElements_nth:
  assumes "nextElements P gBest els e = Inr (rs, e1)" and "k < length els"
  shows "\<exists>ek e2. nextElement P ek (els ! k) gBest = Inr (allocated e + k, e2)
           \<and> heap e1 (allocated e + k) = heap e2 (allocated e + k)
           \<and> allocated ek = allocated e + k \<and> drawn ek = drawn e + 2 * k
           \<and> random ek = random e \<and> inertia ek = inertia e
           \<and> localAcceleration ek = localAcceleration e
           \<and> globalAcceleration ek = globalAcceleration e
           \<and> (\<forall>x < allocated e. heap ek x = heap e x)"
  using assms
proof (induction els arbitrary: e rs k)
  case Nil
  then show ?case by simp
next
  case (Cons el els)
  from Cons.prems(1) obtain r ea rs' where
    a: "nextElement P e el gBest = Inr (r, ea)"
    and b: "nextElements P gBest els ea = Inr (rs', e1)" and rs: "rs = r # rs'"
    by (auto split: sum.splits)
  note fa = nextElement_frame[OF a]
  note ga = nextElement_frame_swarm[OF a]
  note fb = nextElements_frame[OF b]
  show ?case
  proof (cases k)
    case 0
    have "heap e1 (allocated e) = heap ea (allocated e)" using fa fb by simp
    with a fa 0 show ?thesis by (intro exI[of _ e] exI[of _ ea]) simp
  next
    case (Suc k')
    with Cons.prems(2) have k': "k' < length els" by simp
    from Cons.IH[OF b k'] obtain ek e2 where
      c: "nextElement P ek (els ! k') gBest = Inr (allocated ea + k', e2)"
      "heap e1 (allocated ea + k') = heap e2 (allocated ea + k')"
      "allocated ek = allocated ea + k'" "drawn ek = drawn ea + 2 * k'"
      "random ek = random ea" "inertia ek = inertia ea"
      "localAcceleration ek = localAcceleration ea"
      "globalAcceleration ek = globalAcceleration ea"
      "\<forall>x < allocated ea. heap ek x = heap ea x"
      by blast
    have al: "allocated ea + k' = allocated e + k" using fa Suc by simp
    have "\<forall>x < allocated e. heap ek x = heap e x" using c(9) fa by simp
    with c al fa ga Suc show ?thesis
      by (intro exI[of _ ek] exI[of _ e2]) simp
  qed
qed

lemma nextElements_frame_swarm:
  assumes "nextElements P gBest els e = Inr (rs, e1)"
  shows "(\<forall>x. x < allocated e \<or> allocated e + length els \<le> x \<longrightarrow> heap e1 x = heap e x)
     \<and> (\<forall>r \<in> set rs. unranked (heap e1 r) = heap e1 r)"
  using assms
proof (induction els arbitrary: e rs)
  case Nil
  then show ?case by simp
next
  case (Cons el els)
  from Cons.prems(1) obtain r ea rs' where
    a: "nextElement P e el gBest = Inr (r, ea)"
    and b: "nextElements P gBest els ea = Inr (rs', e1)" and rs: "rs = r # rs'"
    by (auto split: sum.splits)
  note fa = nextElement_frame[OF a]
  note ga = nextElement_frame_swarm[OF a]
  note fb = Cons.IH[OF b]
  have "heap e1 x = heap e x" if "x < allocated e \<or> allocated e + length (el # els) \<le> x" for x
    using that fa fb by auto
  moreover have "unranked (heap e1 r) = heap e1 r"
  proof -
    have "heap e1 r = heap ea r" using fa fb by simp
    with ga show ?thesis by simp
  qed
  ultimately show ?case using fb rs by simp
qed

lemma onUpdate_frame:
  "heap (onUpdate e) = heap e" "allocated (onUpdate e) = allocated e"
  "state (onUpdate e) = state e" "globalBest (onUpdate e) = globalBest e"
  by (simp_all add: onUpdate_def log_msg_def emit_def)

lemma swarm_closed_best:
  assumes "swarm_closed e" and "state e \<noteq> []"
  shows "(case globalBest e of None \<Rightarrow> hd (state e) | Some g \<Rightarrow> g) < allocated e"
  using assms by (cases "state e") (auto simp: swarm_closed_def split: option.splits)

lemma update_ps_unfold:
  assumes "state e \<noteq> []"
  defines "gBest \<equiv> (case globalBest e of None \<Rightarrow> hd (state e) | Some g \<Rightarrow> g)"
  shows "update_ps P e =
     (case nextElements P gBest (state e) (e\<lparr>globalBest := Some gBest\<rparr>) of
        Inl err \<Rightarrow> Inl err
      | Inr (elements, e1) \<Rightarrow>
          (case sort_mh P (heap e1) elements of
             Inl err \<Rightarrow> Inl err
           | Inr (h, sorted_elements) \<Rightarrow>
               (case sorted_elements of
                  [] \<Rightarrow> Inl TypeError
                | best # rest \<Rightarrow>
                    Inr (onUpdate
                      (if compare P (h gBest) (h best) < 0
                       then e1\<lparr>heap := h, state := best # rest, globalBest := Some best\<rparr>
                       else e1\<lparr>heap := h, state := best # rest\<rparr>)))))"
proof (cases "globalBest e")
  case None
  have "(case state e of [] \<Rightarrow> None | r # _ \<Rightarrow> Some r) = Some (hd (state e))"
    using assms(1) by (cases "state e") simp_all
  with None show ?thesis
    by (simp add: update_ps_def gBest_def Let_def
        cong: sum.case_cong list.case_cong)
next
  case (Some g)
  then have eq: "e\<lparr>globalBest := Some g\<rparr> = e" by simp
  show ?thesis
    by (simp add: update_ps_def gBest_def Let_def Some eq
        cong: sum.case_cong list.case_cong)
qed

text \<open>
  C7. On a state that is not empty, whenever the particle swarm's \<open>update\<close> returns, the new
  state has the length of the old one and consists of exactly the objects allocated
  during the update, one per element of the old state, and the allocation pointer has
  advanced by that length; the objects that existed before are unchanged; the only event
  emitted is \<open>updated\<close> (neither \<open>expanded\<close> nor \<open>sieved\<close>). The new state and the new store are
  what the shared \<open>sort\<close> returns for the new elements, in the order of their allocation, on
  the store in which they are not ranked yet, so the first element of the new state is
  the one the sort ranks best. The global best is that first element if the comparison
  of the previous global best (the first element of the old state when none was set)
  with it is negative, and the previous global best otherwise. In a swarm whose references
  stay inside the store the \<open>k\<close>-th new object is, up to the annotations of the ranking, the
  element that \<open>nextElement\<close> builds from the \<open>k\<close>-th element of the old state and the previous
  global best, after \<open>k\<close> allocations and \<open>2k\<close> draws. The update returns for every swarm of
  well-formed particles.
\<close>

theorem update_ps_replaces_each_element:
  assumes "state e \<noteq> []"
  shows "(\<forall>e'. update_ps P e = Inr e' \<longrightarrow>
            length (state e') = length (state e)
          \<and> mset (state e') = mset [allocated e..<allocated e + length (state e)]
          \<and> events e' = events e @ [Updated]
          \<and> globalBest e' =
              Some (let gBest = (case globalBest e of None \<Rightarrow> hd (state e) | Some g \<Rightarrow> g)
                    in if compare P (heap e' gBest) (heap e' (hd (state e'))) < 0
                       then hd (state e') else gBest)
          \<and> allocated e' = allocated e + length (state e)
          \<and> (\<forall>x. x < allocated e \<or> allocated e' \<le> x \<longrightarrow> heap e' x = heap e x)
          \<and> sort_mh P (unranked_store e e') [allocated e..<allocated e']
              = Inr (heap e', state e')
          \<and> (swarm_closed e \<longrightarrow>
               (\<forall>k < length (state e). \<exists>e2.
                   nextElement P (before_particle e k) (state e ! k)
                       (case globalBest e of None \<Rightarrow> hd (state e) | Some g \<Rightarrow> g)
                     = Inr (allocated e + k, e2)
                   \<and> unranked (heap e' (allocated e + k)) = heap e2 (allocated e + k))))
      \<and> (swarm_ok P e \<longrightarrow> (\<exists>e'. update_ps P e = Inr e'))"
proof (intro conjI allI impI)
  let ?g = "case globalBest e of None \<Rightarrow> hd (state e) | Some g \<Rightarrow> g"
  let ?e0 = "e\<lparr>globalBest := Some ?g\<rparr>"
  let ?n = "length (state e)"
  note u = update_ps_unfold[OF assms, of P]
  {
    fix e' assume r: "update_ps P e = Inr e'"
    from r u obtain els e1 where ne: "nextElements P ?g (state e) ?e0 = Inr (els, e1)"
      by (auto split: sum.splits)
    with r u obtain h s where so: "sort_mh P (heap e1) els = Inr (h, s)"
      by (auto split: sum.splits)
    with r u ne obtain best rest where s: "s = best # rest"
      by (cases s) auto
    from r u ne so s have e': "e' = onUpdate
          (if compare P (h ?g) (h best) < 0
           then e1\<lparr>heap := h, state := s, globalBest := Some best\<rparr>
           else e1\<lparr>heap := h, state := s\<rparr>)"
      by (auto split: if_splits)
    note f = nextElements_frame[OF ne]
    note g = nextElements_frame_swarm[OF ne]
    from f have els: "els = [allocated e..<allocated e + ?n]"
      and al1: "allocated e1 = allocated e + ?n" by simp_all
    have ms: "mset s = mset [allocated e..<allocated e + length (state e)]"
      using sort_mh_mset[OF so] f by simp
    have st: "state e' = s" "heap e' = h" "allocated e' = allocated e + ?n"
      by (simp_all add: e' al1 onUpdate_frame)
    show "mset (state e') = mset [allocated e..<allocated e + length (state e)]"
      using ms st by simp
    from ms have "length s = length [allocated e..<allocated e + length (state e)]"
      by (rule mset_eq_length)
    then show "length (state e') = length (state e)" using st by simp
    show "events e' = events e @ [Updated]"
      using f by (simp add: e' onUpdate_def log_msg_def emit_def)
    show "globalBest e' =
              Some (let gBest = (case globalBest e of None \<Rightarrow> hd (state e) | Some g \<Rightarrow> g)
                    in if compare P (heap e' gBest) (heap e' (hd (state e'))) < 0
                       then hd (state e') else gBest)"
      using f st s by (simp add: e' onUpdate_def log_msg_def emit_def Let_def)
    show "allocated e' = allocated e + length (state e)" by (rule st(3))
    from ranks_only_sort_mh[OF so] have
      same: "\<And>x. unranked (h x) = unranked (heap e1 x)"
      and other: "\<And>x. x \<notin> set els \<Longrightarrow> h x = heap e1 x"
      by (simp_all add: ranks_only_def)
    have new: "unranked (h x) = heap e1 x" if "x \<in> set els" for x
      using same[of x] g that by simp
    have old: "h x = heap e x" if "x < allocated e \<or> allocated e + ?n \<le> x" for x
    proof -
      from that have "x \<notin> set els" by (auto simp: els)
      then have "h x = heap e1 x" by (rule other)
      with g that show ?thesis by auto
    qed
    then show "heap e' x = heap e x" if "x < allocated e \<or> allocated e' \<le> x" for x
      using that st by simp
    have "unranked_store e e' = heap e1"
    proof
      fix x show "unranked_store e e' x = heap e1 x"
      proof (cases "x \<in> set els")
        case True
        then show ?thesis using new[OF True] by (simp add: unranked_store_def st els)
      next
        case False
        then show ?thesis using other[OF False] by (auto simp: unranked_store_def st els)
      qed
    qed
    then show "sort_mh P (unranked_store e e') [allocated e..<allocated e'] = Inr (heap e', state e')"
      using so st els by simp
    assume cl: "swarm_closed e"
    fix k assume k: "k < length (state e)"
    from nextElements_nth[OF ne k] obtain ek e2 where
      c: "nextElement P ek (state e ! k) ?g = Inr (allocated e + k, e2)"
      "heap e1 (allocated e + k) = heap e2 (allocated e + k)"
      "allocated ek = allocated e + k" "drawn ek = drawn e + 2 * k"
      "random ek = random e" "inertia ek = inertia e"
      "localAcceleration ek = localAcceleration e"
      "globalAcceleration ek = globalAcceleration e"
      "\<forall>x < allocated e. heap ek x = heap e x"
      by auto
    have el: "state e ! k < allocated e"
      and lb: "\<And>l. localBest (heap e (state e ! k)) = Some l \<Longrightarrow> l < allocated e"
      using cl k by (auto simp: swarm_closed_def list_all_length split: option.splits)
    have gb: "?g < allocated e" using cl assms by (rule swarm_closed_best)
    have "\<exists>eb2. nextElement P (before_particle e k) (state e ! k) ?g = Inr (allocated e + k, eb2)
        \<and> heap eb2 (allocated e + k) = heap e2 (allocated e + k)"
    proof (rule nextElement_local[OF c(1)])
      fix l assume "localBest (heap ek (state e ! k)) = Some l"
      with c(9) el have "localBest (heap e (state e ! k)) = Some l" by simp
      from lb[OF this] c(9) show "heap (before_particle e k) l = heap ek l"
        by (simp add: before_particle_def)
    qed (use c el gb in \<open>simp_all add: before_particle_def\<close>)
    then obtain eb2 where
      d: "nextElement P (before_particle e k) (state e ! k) ?g = Inr (allocated e + k, eb2)"
      "heap eb2 (allocated e + k) = heap e2 (allocated e + k)" by blast
    have "allocated e + k \<in> set els" using k by (simp add: els)
    from new[OF this] c(2) d(2) st
    have "unranked (heap e' (allocated e + k)) = heap eb2 (allocated e + k)" by simp
    with d(1) show "\<exists>e2. nextElement P (before_particle e k) (state e ! k) ?g
                     = Inr (allocated e + k, e2)
                   \<and> unranked (heap e' (allocated e + k)) = heap e2 (allocated e + k)"
      by blast
  }
  assume ok: "swarm_ok P e"
  then have pk: "\<forall>vs. length (evaluation_fn P vs) = objectives P"
    and part: "\<forall>r \<in> set (state ?e0). r < allocated ?e0 \<and> velocity (heap ?e0 r) \<noteq> None
             \<and> localBest (heap ?e0 r) \<noteq> None
             \<and> length (elem_values (heap ?e0 r)) \<le> length (model (heap ?e0 r))"
    by (simp_all add: swarm_ok_def list_all_iff)
  from nextElements_ok[OF part, of P ?g] obtain els e1 where
    ne: "nextElements P ?g (state e) ?e0 = Inr (els, e1)" by auto
  note f = nextElements_frame[OF ne]
  have els: "els \<noteq> []" using f assms by simp
  have "evaluated P (heap e1) els"
    using f pk by (simp add: evaluated_def list_all_iff)
  from sort_mh_ok[OF els this] obtain h s where
    so: "sort_mh P (heap e1) els = Inr (h, s)" "mset s = mset els" by blast
  from so(2) els obtain best rest where s: "s = best # rest"
    by (cases s) auto
  show "\<exists>e'. update_ps P e = Inr e'"
    unfolding u using ne so(1) s by simp
qed

lemma swarm_engine_facts:
  "state swarm_engine = [0, 2]" "allocated swarm_engine = 5" "events swarm_engine = []"
  "globalBest swarm_engine = None" "heap swarm_engine = swarm_store"
  by (simp_all add: swarm_engine_def four_engine_def)

lemma swarm_engine_next:
  "nextElement climb_problem (before_particle swarm_engine 0) 0 0 = Inr (r, e2) \<Longrightarrow>
     heap e2 5 = \<lparr>elem_values = [1], model = [10], evaluation = Some [1], pareto = None,
       crowdingDistance = None, velocity = Some [1], localBest = Some 0\<rparr>"
  "nextElement climb_problem (before_particle swarm_engine (Suc 0)) 2 0 = Inr (r, e2) \<Longrightarrow>
     heap e2 6 = \<lparr>elem_values = [27 / 10], model = [10], evaluation = Some [27 / 10],
       pareto = None, crowdingDistance = None, velocity = Some [7 / 10], localBest = Some 2\<rparr>"
  by (auto simp: nextElement_def nextVelocity_def Let_def alloc_def blank_def clamp_def
      before_particle_def swarm_engine_def four_engine_def swarm_store_def point_def
      no_element_def climb_problem_def line_problem_def)

theorem update_ps_replaces_each_element_witness:
  "state swarm_engine \<noteq> [] \<and> swarm_ok climb_problem swarm_engine
   \<and> swarm_closed swarm_engine \<and> swarm_ok line_problem swarm_engine
   \<and> (\<exists>e'. update_ps climb_problem swarm_engine = Inr e'
          \<and> state e' = [6, 5] \<and> allocated e' = 7 \<and> events e' = [Updated]
          \<and> globalBest e' = Some 6
          \<and> elem_values (heap e' 5) = [1] \<and> velocity (heap e' 5) = Some [1]
          \<and> evaluation (heap e' 5) = Some [1] \<and> localBest (heap e' 5) = Some 0
          \<and> elem_values (heap e' 6) = [27 / 10] \<and> velocity (heap e' 6) = Some [7 / 10]
          \<and> evaluation (heap e' 6) = Some [27 / 10] \<and> localBest (heap e' 6) = Some 2
          \<and> heap e' 0 = swarm_store 0 \<and> heap e' 2 = swarm_store 2)
   \<and> (\<exists>e'. update_ps line_problem swarm_engine = Inr e'
          \<and> length (state e') = 2 \<and> mset (state e') = mset [5, 6]
          \<and> events e' = [Updated] \<and> globalBest e' = Some 0)"
proof -
  have a: "state swarm_engine \<noteq> []" by (simp add: swarm_engine_def)
  have b: "swarm_ok climb_problem swarm_engine"
    by (simp add: swarm_ok_def swarm_engine_def swarm_store_def climb_problem_def
        line_problem_def point_def no_element_def)
  have b': "swarm_ok line_problem swarm_engine"
    by (simp add: swarm_ok_def swarm_engine_def swarm_store_def line_problem_def point_def
        no_element_def)
  have c: "swarm_closed swarm_engine"
    by (simp add: swarm_closed_def swarm_engine_def four_engine_def swarm_store_def point_def
        no_element_def)
  note s = swarm_engine_facts
  have cmp: "compare line_problem = (\<lambda>a b. 0)"
    "compare climb_problem = (\<lambda>a b. elem_values a ! 0 - elem_values b ! 0)"
    "objectives climb_problem = 1"
    by (simp_all add: climb_problem_def line_problem_def)
  have u: "[5..<5 + length [0, 2 :: ref]] = [5, 6]" "[5..<7] = [5, 6 :: nat]"
    by (simp_all add: upt_rec)
  have A: "\<exists>e'. update_ps climb_problem swarm_engine = Inr e'
          \<and> state e' = [6, 5] \<and> allocated e' = 7 \<and> events e' = [Updated]
          \<and> globalBest e' = Some 6
          \<and> elem_values (heap e' 5) = [1] \<and> velocity (heap e' 5) = Some [1]
          \<and> evaluation (heap e' 5) = Some [1] \<and> localBest (heap e' 5) = Some 0
          \<and> elem_values (heap e' 6) = [27 / 10] \<and> velocity (heap e' 6) = Some [7 / 10]
          \<and> evaluation (heap e' 6) = Some [27 / 10] \<and> localBest (heap e' 6) = Some 2
          \<and> heap e' 0 = swarm_store 0 \<and> heap e' 2 = swarm_store 2"
  proof -
    from update_ps_replaces_each_element[OF a, of climb_problem] b c
    obtain e' where r: "update_ps climb_problem swarm_engine = Inr e'"
      "events e' = events swarm_engine @ [Updated]"
      "globalBest e' =
         Some (let gBest = (case globalBest swarm_engine of None \<Rightarrow> hd (state swarm_engine)
                            | Some g \<Rightarrow> g)
               in if compare climb_problem (heap e' gBest) (heap e' (hd (state e'))) < 0
                  then hd (state e') else gBest)"
      "allocated e' = allocated swarm_engine + length (state swarm_engine)"
      "\<forall>x. x < allocated swarm_engine \<or> allocated e' \<le> x \<longrightarrow> heap e' x = heap swarm_engine x"
      "sort_mh climb_problem (unranked_store swarm_engine e')
          [allocated swarm_engine..<allocated e'] = Inr (heap e', state e')"
      "\<forall>k < length (state swarm_engine). \<exists>e2.
          nextElement climb_problem (before_particle swarm_engine k) (state swarm_engine ! k)
              (case globalBest swarm_engine of None \<Rightarrow> hd (state swarm_engine) | Some g \<Rightarrow> g)
            = Inr (allocated swarm_engine + k, e2)
          \<and> unranked (heap e' (allocated swarm_engine + k)) = heap e2 (allocated swarm_engine + k)"
      by blast
    have al: "allocated e' = 7" using r(4) by (simp add: s)
    from r(7)[rule_format, of 0] obtain e2 where
      "nextElement climb_problem (before_particle swarm_engine 0) 0 0 = Inr (5, e2)"
      "unranked (heap e' 5) = heap e2 5"
      by (auto simp: s)
    with swarm_engine_next(1) have n5: "unranked (heap e' 5)
       = \<lparr>elem_values = [1], model = [10], evaluation = Some [1], pareto = None,
       crowdingDistance = None, velocity = Some [1], localBest = Some 0\<rparr>"
      by simp
    from r(7)[rule_format, of "Suc 0"] obtain e3 where
      "nextElement climb_problem (before_particle swarm_engine (Suc 0)) 2 0 = Inr (6, e3)"
      "unranked (heap e' 6) = heap e3 6"
      by (auto simp: s)
    with swarm_engine_next(2) have n6: "unranked (heap e' 6)
       = \<lparr>elem_values = [27 / 10], model = [10], evaluation = Some [27 / 10],
       pareto = None, crowdingDistance = None, velocity = Some [7 / 10], localBest = Some 2\<rparr>"
      by simp
    have f5: "elem_values (heap e' 5) = [1]" "velocity (heap e' 5) = Some [1]"
      "evaluation (heap e' 5) = Some [1]" "localBest (heap e' 5) = Some 0"
      using arg_cong[OF n5, of elem_values] arg_cong[OF n5, of velocity]
        arg_cong[OF n5, of evaluation] arg_cong[OF n5, of localBest]
      by (simp_all add: unranked_def)
    have f6: "elem_values (heap e' 6) = [27 / 10]" "velocity (heap e' 6) = Some [7 / 10]"
      "evaluation (heap e' 6) = Some [27 / 10]" "localBest (heap e' 6) = Some 2"
      using arg_cong[OF n6, of elem_values] arg_cong[OF n6, of velocity]
        arg_cong[OF n6, of evaluation] arg_cong[OF n6, of localBest]
      by (simp_all add: unranked_def)
    have old: "heap e' 0 = swarm_store 0" "heap e' 2 = swarm_store 2"
      using r(5) by (simp_all add: s)
    have st: "state e' = [6, 5]"
      using r(6)
      by (simp add: s al u sort_mh_def cmp unranked_store_def n5 n6 js_sort_def sort_le_def)
    have gb: "globalBest e' = Some 6"
      using r(3) by (simp add: s st cmp old f6 swarm_store_def point_def)
    from r(1) st al r(2) gb f5 f6 old show ?thesis by (simp add: s)
  qed
  have B: "\<exists>e'. update_ps line_problem swarm_engine = Inr e'
          \<and> length (state e') = 2 \<and> mset (state e') = mset [5, 6]
          \<and> events e' = [Updated] \<and> globalBest e' = Some 0"
  proof -
    from update_ps_replaces_each_element[OF a, of line_problem] b'
    obtain e' where r: "update_ps line_problem swarm_engine = Inr e'"
      "length (state e') = length (state swarm_engine)"
      "mset (state e') = mset [allocated swarm_engine..<allocated swarm_engine + length (state swarm_engine)]"
      "events e' = events swarm_engine @ [Updated]"
      "globalBest e' =
         Some (let gBest = (case globalBest swarm_engine of None \<Rightarrow> hd (state swarm_engine) | Some g \<Rightarrow> g)
               in if compare line_problem (heap e' gBest) (heap e' (hd (state e'))) < 0
                  then hd (state e') else gBest)"
      by blast
    from r(2,3,4,5) have "length (state e') = 2 \<and> mset (state e') = mset [5, 6]
        \<and> events e' = [Updated] \<and> globalBest e' = Some 0"
      unfolding s u cmp by simp
    with r(1) show ?thesis by blast
  qed
  from a b b' c A B show ?thesis by simp
qed

section \<open>Properties of \<open>run\<close>\<close>

lemma problem_evaluate_values [simp]:
  "elem_values (problem_evaluate P h els x) = elem_values (h x)"
  unfolding problem_evaluate_def by (induction els arbitrary: h) simp_all

lemma problem_evaluate_evaluation:
  "x \<in> set els \<Longrightarrow>
     evaluation (problem_evaluate P h els x) = Some (evaluation_fn P (elem_values (h x)))"
proof (induction els arbitrary: h)
  case Nil
  then show ?case by simp
next
  case (Cons r els)
  let ?h1 = "h(r := (h r)\<lparr>evaluation := Some (evaluation_fn P (elem_values (h r)))\<rparr>)"
  have step: "problem_evaluate P h (r # els) = problem_evaluate P ?h1 els"
    by (simp add: problem_evaluate_def)
  show ?case
  proof (cases "x \<in> set els")
    case True
    have "evaluation (problem_evaluate P ?h1 els x)
        = Some (evaluation_fn P (elem_values (?h1 x)))"
      by (rule Cons.IH[OF True])
    moreover have "elem_values (?h1 x) = elem_values (h x)" by simp
    ultimately show ?thesis by (simp only: step)
  next
    case False
    with Cons.prems have x: "x = r" by simp
    have "evaluation (fold (\<lambda>r h. h(r := (h r)\<lparr>evaluation := Some (evaluation_fn P (elem_values (h r)))\<rparr>)) ys h0 x)
        = evaluation (h0 x)" if "x \<notin> set ys" for ys h0
      using that by (induction ys arbitrary: h0) simp_all
    from this[OF False, of ?h1] show ?thesis
      unfolding step by (simp add: problem_evaluate_def x)
  qed
qed

lemma problem_evaluate_evaluated:
  "\<forall>vs. length (evaluation_fn P vs) = objectives P \<Longrightarrow>
     evaluated P (problem_evaluate P h els) els"
  by (simp add: evaluated_def list_all_iff problem_evaluate_evaluation)

lemma evaluate_ok:
  assumes "\<forall>vs. length (evaluation_fn P vs) = objectives P" and "state e \<noteq> []"
  shows "\<exists>e'. evaluate P e None = Inr (state e', e') \<and> mset (state e') = mset (state e)
           \<and> evaluated P (heap e') (state e')
           \<and> (1 < objectives P \<longrightarrow> (\<forall>x \<in> set (state e'). pareto (heap e' x) \<noteq> None))"
proof -
  let ?h0 = "problem_evaluate P (heap e) (state e)"
  have ev: "evaluated P ?h0 (state e)" using assms(1) by (rule problem_evaluate_evaluated)
  from sort_mh_ok[OF assms(2) ev] obtain h s where
    so: "sort_mh P ?h0 (state e) = Inr (h, s)" "mset s = mset (state e)"
    "\<forall>x. evaluation (h x) = evaluation (?h0 x)"
    "1 < objectives P \<longrightarrow> (\<forall>x \<in> set (state e). pareto (h x) \<noteq> None)"
    by blast
  let ?e' = "onEvaluate (e\<lparr>heap := h, state := s\<rparr>)"
  have r: "evaluate P e None = Inr (s, ?e')" using so(1) by (simp add: evaluate_def)
  have st: "state ?e' = s" "heap ?e' = h"
    by (simp_all add: onEvaluate_def log_msg_def emit_def)
  have set: "set s = set (state e)" using so(2) by (rule mset_eq_setD)
  have "evaluated P h (state e)" using ev so(3) by (simp add: evaluated_def)
  then have "evaluated P h s" using evaluated_mset[OF so(2)] by blast
  with r st so(2,4) set show ?thesis by (intro exI[of _ ?e']) simp
qed

lemma analyze_ok:
  assumes "0 < objectives P" and "state e \<noteq> []" and "evaluated P (heap e) (state e)"
    and "1 < objectives P \<longrightarrow> (\<forall>x \<in> set (state e). pareto (heap e x) \<noteq> None)"
  shows "analyze e = Inr (onAnalyze e)"
proof -
  from assms(2) obtain r0 rest where s: "state e = r0 # rest" by (cases "state e") auto
  with assms(3) obtain v0 where v0: "evaluation (heap e r0) = Some v0" "length v0 = objectives P"
    by (auto simp: evaluated_def split: option.splits)
  have all: "\<forall>r \<in> set (state e). evaluation (heap e r) \<noteq> None"
    using assms(3) by (auto simp: evaluated_def list_all_iff split: option.splits)
  show ?thesis
  proof (cases "objectives P = 1")
    case True
    with s v0 show ?thesis by (simp add: analyze_def)
  next
    case False
    with assms(1) have "1 < objectives P" by simp
    with assms(4) all have "list_all (\<lambda>r. evaluation (heap e r) \<noteq> None \<and> pareto (heap e r) \<noteq> None) (state e)"
      by (simp add: list_all_iff)
    with s v0 show ?thesis by (simp add: analyze_def)
  qed
qed

lemma initiate_state: "length (state (initiate P e None)) = size_mh e"
proof -
  obtain rs e1 where a: "new_Elements P (size_mh e) e = (rs, e1)"
    by (cases "new_Elements P (size_mh e) e")
  from new_Elements_frame[OF a] a show ?thesis
    by (simp add: initiate_def Let_def onInitiate_def log_msg_def emit_def)
qed

lemma expand_ok:
  assumes "case expansionRate e of None \<Rightarrow> True | Some r \<Rightarrow> 0 \<le> r"
  shows "\<exists>e' xs. expand P e None = Inr e' \<and> state e' = state e @ xs"
proof -
  let ?rate = "case expansionRate e of None \<Rightarrow> 1 | Some r \<Rightarrow> r"
  have "0 \<le> ?rate" using assms by (simp split: option.splits)
  then have "0 \<le> \<lfloor>?rate * real (size_mh e)\<rfloor>" by simp
  then obtain xs e1 where a: "expansion P e None = Inr (xs, e1)"
    by (cases "new_Elements P (nat \<lfloor>?rate * real (size_mh e)\<rfloor>) e")
      (simp add: expansion_def Let_def)
  from expand_result[where ex = None and e = e and P = P and xs = xs and ?e1.0 = e1] a
  have "expand P e None
      = Inr (onExpand (if xs = [] then log_msg Warn ''Expansion is empty'' e1
                       else e1\<lparr>state := state e1 @ xs\<rparr>))" by simp
  moreover have "state e1 = state e" using expansion_frame[OF a] by simp
  ultimately show ?thesis
    by (intro exI[of _ "onExpand (if xs = [] then log_msg Warn ''Expansion is empty'' e1
                       else e1\<lparr>state := state e1 @ xs\<rparr>)"] exI[of _ xs])
      (simp add: onExpand_def log_msg_def emit_def)
qed

lemma advance_ok:
  assumes "run_ok P e" and "0 \<le> step e \<longrightarrow> state e \<noteq> []"
  shows "\<exists>e'. advance P e = Inr e' \<and> state e' \<noteq> []"
proof -
  from assms(1) have pk: "\<forall>vs. length (evaluation_fn P vs) = objectives P"
    and ob: "0 < objectives P" and sz: "0 < size_mh e"
    and rt: "case expansionRate e of None \<Rightarrow> True | Some r \<Rightarrow> 0 \<le> r"
    by (simp_all add: run_ok_def)
  have "\<exists>e1. (if step e < 0
         then (case evaluate P (initiate P (reset e) None) None of
                 Inl err \<Rightarrow> Inl err | Inr (_, e1) \<Rightarrow> Inr e1)
         else update P e) = Inr e1
       \<and> state e1 \<noteq> [] \<and> evaluated P (heap e1) (state e1)
       \<and> (1 < objectives P \<longrightarrow> (\<forall>x \<in> set (state e1). pareto (heap e1 x) \<noteq> None))"
  proof (cases "step e < 0")
    case True
    let ?ei = "initiate P (reset e) None"
    have "length (state ?ei) = size_mh e" by (simp add: initiate_state reset_def)
    with sz have ne: "state ?ei \<noteq> []" by auto
    from evaluate_ok[OF pk ne] obtain e1 where
      e1: "evaluate P ?ei None = Inr (state e1, e1)" "mset (state e1) = mset (state ?ei)"
      "evaluated P (heap e1) (state e1)"
      "1 < objectives P \<longrightarrow> (\<forall>x \<in> set (state e1). pareto (heap e1 x) \<noteq> None)"
      by blast
    from e1(2) ne have "state e1 \<noteq> []" by auto
    with True e1 show ?thesis by (intro exI[of _ e1]) simp
  next
    case False
    with assms(2) have ne: "state e \<noteq> []" by simp
    from expand_ok[OF rt, of P] obtain ea xs where
      ea: "expand P e None = Inr ea" "state ea = state e @ xs" by blast
    with ne have nea: "state ea \<noteq> []" by simp
    from evaluate_ok[OF pk nea] obtain eb where
      eb: "evaluate P ea None = Inr (state eb, eb)" "mset (state eb) = mset (state ea)"
      "evaluated P (heap eb) (state eb)"
      "1 < objectives P \<longrightarrow> (\<forall>x \<in> set (state eb). pareto (heap eb x) \<noteq> None)"
      by blast
    from eb(2) nea have neb: "state eb \<noteq> []" by auto
    let ?e1 = "onUpdate (sieve eb None)"
    have u: "update P e = Inr ?e1" using ea(1) eb(1) by (simp add: update_def)
    have szb: "size_mh eb = size_mh e"
      using expand_same_run[OF ea(1)] evaluate_same_run[OF eb(1)] by (simp add: same_run_def)
    have st: "state ?e1 = take (size_mh e) (state eb)" "heap ?e1 = heap eb"
      using szb by (simp_all add: onUpdate_def log_msg_def emit_def sieve_default
          sieve_def Let_def onSieve_def)
    have sub: "set (state ?e1) \<subseteq> set (state eb)" unfolding st by (rule set_take_subset)
    have "state ?e1 \<noteq> []" using st neb sz by simp
    moreover have "evaluated P (heap ?e1) (state ?e1)"
      using eb(3) sub by (auto simp: evaluated_def list_all_iff st(2))
    moreover have "1 < objectives P \<longrightarrow> (\<forall>x \<in> set (state ?e1). pareto (heap ?e1 x) \<noteq> None)"
      using eb(4) sub by (auto simp: st(2))
    ultimately show ?thesis using False u by (intro exI[of _ ?e1]) simp
  qed
  then obtain e1 where e1: "(if step e < 0
         then (case evaluate P (initiate P (reset e) None) None of
                 Inl err \<Rightarrow> Inl err | Inr (_, e1) \<Rightarrow> Inr e1)
         else update P e) = Inr e1"
    "state e1 \<noteq> []" "evaluated P (heap e1) (state e1)"
    "1 < objectives P \<longrightarrow> (\<forall>x \<in> set (state e1). pareto (heap e1 x) \<noteq> None)"
    by blast
  let ?e2 = "e1\<lparr>step := (if step e1 < 0 then 0 else step e1 + 1)\<rparr>"
  have "analyze ?e2 = Inr (onAnalyze ?e2)"
    by (rule analyze_ok[OF ob]) (use e1 in simp_all)
  with e1(1) have "advance P e = Inr (onAdvance (onAnalyze ?e2))"
    by (simp add: advance_def)
  moreover have "state (onAdvance (onAnalyze ?e2)) \<noteq> []"
    using e1(2) by (simp add: onAdvance_def onAnalyze_def log_msg_def emit_def)
  ultimately show ?thesis by blast
qed

lemma real_nat_le_int: "real S \<le> real_of_int k \<longleftrightarrow> int S \<le> k"
  by (metis of_int_le_iff of_int_of_nat_eq)

lemma run_ok_advance:
  assumes "run_ok P e" and "advance P e = Inr e'"
  shows "run_ok P e'"
  using assms advance_step[OF assms(2)] by (simp add: run_ok_def)

lemma run_loop_started:
  assumes "run_ok P e" and "\<forall>xs. \<not> sufficientElements P xs" and "steps e = real S"
    and "0 \<le> step e" and "step e < int S" and "state e \<noteq> []"
  shows "\<exists>e'. run_loop P e = Inr e' \<and> step e' = int S \<and> state e' \<noteq> []
           \<and> count_list (events e') Advanced = count_list (events e) Advanced + (S - nat (step e))
           \<and> count_list (events e') Finished = count_list (events e) Finished"
  using assms
proof (induction "S - nat (step e)" arbitrary: e)
  case 0
  then show ?case by simp
next
  case (Suc n)
  from advance_ok[OF Suc.prems(1)] Suc.prems(6) obtain e1 where
    a: "advance P e = Inr e1" "state e1 \<noteq> []" by blast
  note s = advance_step[OF a(1)]
  from s Suc.prems(4) have st: "step e1 = step e + 1" by simp
  have "finished P e1 \<longleftrightarrow> real S \<le> real_of_int (step e1)"
    using Suc.prems(2,3) s by (simp add: finished_def)
  then have fin: "finished P e1 \<longleftrightarrow> int S \<le> step e1"
    by (simp add: real_nat_le_int)
  show ?case
  proof (cases "int S \<le> step e1")
    case True
    with fin a(1) have "run_loop P e = Inr e1" by (simp add: run_loop.simps[of P e])
    moreover from True st Suc.prems(5) have "step e1 = int S" by simp
    moreover from this st Suc.prems(4) have "S - nat (step e) = 1" by simp
    ultimately show ?thesis using a(2) s by auto
  next
    case False
    with fin a(1) have r: "run_loop P e = run_loop P e1" by (simp add: run_loop.simps[of P e])
    have n: "n = S - nat (step e1)" using Suc.hyps(2) st Suc.prems(4) by simp
    have "\<exists>e'. run_loop P e1 = Inr e' \<and> step e' = int S \<and> state e' \<noteq> []
           \<and> count_list (events e') Advanced = count_list (events e1) Advanced + (S - nat (step e1))
           \<and> count_list (events e') Finished = count_list (events e1) Finished"
    proof (rule Suc.hyps(1)[OF n])
      show "run_ok P e1" using Suc.prems(1) a(1) by (rule run_ok_advance)
      show "\<forall>xs. \<not> sufficientElements P xs" by fact
      show "steps e1 = real S" using s Suc.prems(3) by simp
      show "0 \<le> step e1" using st Suc.prems(4) by simp
      show "step e1 < int S" using False by simp
      show "state e1 \<noteq> []" by fact
    qed
    then obtain e' where e': "run_loop P e1 = Inr e'" "step e' = int S" "state e' \<noteq> []"
      "count_list (events e') Advanced = count_list (events e1) Advanced + (S - nat (step e1))"
      "count_list (events e') Finished = count_list (events e1) Finished"
      by blast
    have k: "nat (step e1) = Suc (nat (step e))" using st Suc.prems(4) by simp
    have lt: "nat (step e) < S" using Suc.prems(4,5) by simp
    have c: "count_list (events e1) Advanced = count_list (events e) Advanced + 1"
      "count_list (events e1) Finished = count_list (events e) Finished"
      using s by simp_all
    have "count_list (events e1) Advanced + (S - nat (step e1))
        = count_list (events e) Advanced + (S - nat (step e))"
      using k lt c(1) by arith
    with e' r c(2) show ?thesis by (intro exI[of _ e']) simp
  qed
qed

lemma run_loop_unstarted:
  assumes "run_ok P e" and "\<forall>xs. \<not> sufficientElements P xs" and "steps e = real S"
    and "step e < 0"
  shows "\<exists>e'. run_loop P e = Inr e' \<and> step e' = int S \<and> state e' \<noteq> []
           \<and> count_list (events e') Advanced = count_list (events e) Advanced + S + 1
           \<and> count_list (events e') Finished = count_list (events e) Finished"
proof -
  from advance_ok[OF assms(1)] assms(4) obtain e1 where
    a: "advance P e = Inr e1" "state e1 \<noteq> []" by auto
  note s = advance_step[OF a(1)]
  from s assms(4) have st: "step e1 = 0" by simp
  have fin: "finished P e1 \<longleftrightarrow> S = 0"
    using assms(2,3) s st by (simp add: finished_def)
  show ?thesis
  proof (cases "S = 0")
    case True
    with fin a(1) have "run_loop P e = Inr e1" by (simp add: run_loop.simps[of P e])
    with True st a(2) s show ?thesis by auto
  next
    case False
    with fin a(1) have r: "run_loop P e = run_loop P e1" by (simp add: run_loop.simps[of P e])
    have "\<exists>e'. run_loop P e1 = Inr e' \<and> step e' = int S \<and> state e' \<noteq> []
           \<and> count_list (events e') Advanced = count_list (events e1) Advanced + (S - nat (step e1))
           \<and> count_list (events e') Finished = count_list (events e1) Finished"
    proof (rule run_loop_started)
      show "run_ok P e1" using assms(1) a(1) by (rule run_ok_advance)
      show "\<forall>xs. \<not> sufficientElements P xs" by fact
      show "steps e1 = real S" using s assms(3) by simp
      show "0 \<le> step e1" using st by simp
      show "step e1 < int S" using False st by simp
      show "state e1 \<noteq> []" by fact
    qed
    with r s st show ?thesis by auto
  qed
qed

lemma run_advances:
  assumes "run_ok P e" and "\<forall>xs. \<not> sufficientElements P xs" and "steps e = real S"
    and "step e < 0"
  shows "\<exists>best e'. run P e = Inr (Some best, e') \<and> state e' \<noteq> [] \<and> best = state e' ! 0
           \<and> step e' = int S
           \<and> count_list (events e') Advanced = count_list (events e) Advanced + S + 1
           \<and> count_list (events e') Finished = count_list (events e) Finished + 1"
proof -
  from run_loop_unstarted[OF assms] obtain e1 where
    e1: "run_loop P e = Inr e1" "step e1 = int S" "state e1 \<noteq> []"
    "count_list (events e1) Advanced = count_list (events e) Advanced + S + 1"
    "count_list (events e1) Finished = count_list (events e) Finished"
    by blast
  from e1(3) obtain r rest where s: "state e1 = r # rest" by (cases "state e1") auto
  let ?e2 = "onFinish e1"
  have "run P e = Inr (Some r, ?e2)"
    using e1(1) s by (simp add: run_def Let_def onFinish_def log_msg_def emit_def)
  moreover have "state ?e2 \<noteq> []" "r = state ?e2 ! 0" "step ?e2 = int S"
    "count_list (events ?e2) Advanced = count_list (events e) Advanced + S + 1"
    "count_list (events ?e2) Finished = count_list (events e) Finished + 1"
    using e1 s by (simp_all add: onFinish_def log_msg_def emit_def)
  ultimately show ?thesis by blast
qed

text \<open>
  C1. For a step limit \<open>S\<close>, a problem whose \<open>sufficientElements\<close> is always false and an
  engine that has not started, in a run that cannot fail, \<open>run()\<close> performs exactly \<open>S + 1\<close>
  advances, the initiating one that brings the step to \<open>0\<close> and \<open>S\<close> updating ones, and then
  resolves to the first element of the state, with the step at \<open>S\<close> and \<open>finished\<close> emitted
  once.
\<close>

theorem run_performs_steps_plus_one_advances:
  assumes "run_ok P e" and "\<forall>xs. \<not> sufficientElements P xs" and "steps e = real S"
    and "step e < 0"
  shows "\<exists>best e'. run P e = Inr (Some best, e') \<and> state e' \<noteq> [] \<and> best = state e' ! 0
           \<and> step e' = int S
           \<and> count_list (events e') Advanced = count_list (events e) Advanced + S + 1
           \<and> count_list (events e') Finished = count_list (events e) Finished + 1"
  using assms by (rule run_advances)

lemma fresh_engine_facts:
  "run_ok line_problem fresh_engine" "\<forall>xs. \<not> sufficientElements line_problem xs"
  "steps fresh_engine = real (Suc 0)" "step fresh_engine < 0" "events fresh_engine = []"
  by (simp_all add: run_ok_def fresh_engine_def four_engine_def line_problem_def)

theorem run_performs_steps_plus_one_advances_witness:
  "run_ok line_problem fresh_engine \<and> (\<forall>xs. \<not> sufficientElements line_problem xs)
   \<and> steps fresh_engine = 1 \<and> step fresh_engine < 0
   \<and> (\<exists>best e'. run line_problem fresh_engine = Inr (Some best, e') \<and> best = state e' ! 0
          \<and> step e' = 1 \<and> count_list (events e') Advanced = 2)"
proof -
  from run_performs_steps_plus_one_advances[OF fresh_engine_facts(1-4)]
  have "\<exists>best e'. run line_problem fresh_engine = Inr (Some best, e') \<and> best = state e' ! 0
          \<and> step e' = 1 \<and> count_list (events e') Advanced = 2"
    by (auto simp: fresh_engine_facts(5))
  with fresh_engine_facts show ?thesis by simp
qed

text \<open>
  With the step limit \<open>1\<close> an engine that has not started advances twice, not once.
\<close>

theorem run_with_step_limit_one_advances_twice:
  "step fresh_engine = -1 \<and> steps fresh_engine = 1
   \<and> \<not> isl (run line_problem fresh_engine)
   \<and> count_list (events (snd (projr (run line_problem fresh_engine)))) Advanced = 2"
proof -
  from run_advances[OF fresh_engine_facts(1-4)] obtain best e' where
    "run line_problem fresh_engine = Inr (Some best, e')"
    "count_list (events e') Advanced = count_list (events fresh_engine) Advanced + Suc 0 + 1"
    by blast
  then show ?thesis
    by (simp add: fresh_engine_facts(5)) (simp add: fresh_engine_def four_engine_def)
qed

end
